theory Spec2Isabelle
  imports Complex_Main "HOL-Library.Sublist" "HOL-Library.Word"
begin

section \<open>HourTrack: session lifecycle and period aggregation (src/src/App.jsx)\<close>

text \<open>
  The model follows \<^verbatim>\<open>App.jsx\<close> function by function. A \<^verbatim>\<open>Date\<close> object is its time
  value: \<^term>\<open>Some t\<close> with \<open>t\<close> milliseconds since the epoch, or \<^term>\<open>None\<close> for an Invalid
  Date; \<^verbatim>\<open>null\<close> and \<^verbatim>\<open>undefined\<close> are \<^term>\<open>None\<close> or explicit constructors. The host's
  local time zone is a parameter \<open>z\<close> of the functions that read or set local fields.
\<close>

subsection \<open>Time values and the calendar of the Date built-in\<close>

type_synonym date = "int option"

definition msPerDay :: int where
  "msPerDay = 86400000"

definition msPerHour :: int where
  "msPerHour = 3600000"

definition msPerMinute :: int where
  "msPerMinute = 60000"

definition msPerSecond :: int where
  "msPerSecond = 1000"

definition maxTime :: int where
  "maxTime = 8640000000000000"

definition Day :: "int \<Rightarrow> int" where
  "Day t = t div msPerDay"

definition TimeWithinDay :: "int \<Rightarrow> int" where
  "TimeWithinDay t = t mod msPerDay"

definition DaysInYear :: "int \<Rightarrow> int" where
  "DaysInYear y =
     (if y mod 4 \<noteq> 0 then 365
      else if y mod 100 \<noteq> 0 then 366
      else if y mod 400 \<noteq> 0 then 365
      else 366)"

definition DayFromYear :: "int \<Rightarrow> int" where
  "DayFromYear y =
     365 * (y - 1970) + (y - 1969) div 4 - (y - 1901) div 100 + (y - 1601) div 400"

text \<open>
  The language standard defines the year of a time value as the largest \<open>y\<close> whose first
  day is not after it. \<open>YearFromDay\<close> computes that year from a linear estimate corrected
  by at most one; lemma \<open>YearFromDay_unique\<close> below shows it is the year of the standard.
\<close>

definition YearFromDay :: "int \<Rightarrow> int" where
  "YearFromDay d =
     (let y = 1970 + (400 * d) div 146097 in
      if d < DayFromYear y then y - 1
      else if DayFromYear (y + 1) \<le> d then y + 1
      else y)"

definition YearFromTime :: "int \<Rightarrow> int" where
  "YearFromTime t = YearFromDay (Day t)"

definition InLeapYear :: "int \<Rightarrow> int" where
  "InLeapYear t = (if DaysInYear (YearFromTime t) = 366 then 1 else 0)"

definition DayWithinYear :: "int \<Rightarrow> int" where
  "DayWithinYear t = Day t - DayFromYear (YearFromTime t)"

text \<open>Day within the year on which month \<open>m\<close> (0 = January) begins; 12 is the year's end.\<close>

definition monthStart :: "int \<Rightarrow> int \<Rightarrow> int" where
  "monthStart m leap =
     (if m = 0 then 0
      else if m = 1 then 31
      else if m = 2 then 59 + leap
      else if m = 3 then 90 + leap
      else if m = 4 then 120 + leap
      else if m = 5 then 151 + leap
      else if m = 6 then 181 + leap
      else if m = 7 then 212 + leap
      else if m = 8 then 243 + leap
      else if m = 9 then 273 + leap
      else if m = 10 then 304 + leap
      else if m = 11 then 334 + leap
      else 365 + leap)"

definition monthOfYearDay :: "int \<Rightarrow> int \<Rightarrow> int" where
  "monthOfYearDay d leap =
     (if d < 31 then 0
      else if d < 59 + leap then 1
      else if d < 90 + leap then 2
      else if d < 120 + leap then 3
      else if d < 151 + leap then 4
      else if d < 181 + leap then 5
      else if d < 212 + leap then 6
      else if d < 243 + leap then 7
      else if d < 273 + leap then 8
      else if d < 304 + leap then 9
      else if d < 334 + leap then 10
      else 11)"

definition MonthFromTime :: "int \<Rightarrow> int" where
  "MonthFromTime t = monthOfYearDay (DayWithinYear t) (InLeapYear t)"

definition DateFromTime :: "int \<Rightarrow> int" where
  "DateFromTime t = DayWithinYear t - monthStart (MonthFromTime t) (InLeapYear t) + 1"

definition WeekDay :: "int \<Rightarrow> int" where
  "WeekDay t = (Day t + 4) mod 7"

definition HourFromTime :: "int \<Rightarrow> int" where
  "HourFromTime t = (t div msPerHour) mod 24"

definition MinFromTime :: "int \<Rightarrow> int" where
  "MinFromTime t = (t div msPerMinute) mod 60"

definition SecFromTime :: "int \<Rightarrow> int" where
  "SecFromTime t = (t div msPerSecond) mod 60"

definition msFromTime :: "int \<Rightarrow> int" where
  "msFromTime t = t mod msPerSecond"

definition MakeTime :: "int \<Rightarrow> int \<Rightarrow> int \<Rightarrow> int \<Rightarrow> int" where
  "MakeTime hour minute sec ms = hour * msPerHour + minute * msPerMinute + sec * msPerSecond + ms"

definition MakeDay :: "int \<Rightarrow> int \<Rightarrow> int \<Rightarrow> int" where
  "MakeDay year month dt =
     (let ym = year + month div 12;
          mn = month mod 12
      in DayFromYear ym + monthStart mn (if DaysInYear ym = 366 then 1 else 0) + dt - 1)"

definition MakeDate :: "int \<Rightarrow> int \<Rightarrow> int" where
  "MakeDate day time = day * msPerDay + time"

definition TimeClip :: "int \<Rightarrow> date" where
  "TimeClip time = (if \<bar>time\<bar> > maxTime then None else Some time)"

text \<open>
  The host's time zone: the offset of local time from UTC, in milliseconds, at a UTC
  time value and at a local one (for a local time that a clock change repeats or skips
  the host picks the offset). A host without clock changes has one offset throughout.
\<close>

record zone =
  offsetAtUTC :: "int \<Rightarrow> int"
  offsetAtLocal :: "int \<Rightarrow> int"

definition fixedZone :: "int \<Rightarrow> zone" where
  "fixedZone tza = \<lparr>offsetAtUTC = (\<lambda>t. tza), offsetAtLocal = (\<lambda>t. tza)\<rparr>"

definition LocalTime :: "zone \<Rightarrow> int \<Rightarrow> int" where
  "LocalTime z t = t + offsetAtUTC z t"

definition UTC :: "zone \<Rightarrow> int \<Rightarrow> int" where
  "UTC z t = t - offsetAtLocal z t"

subsection \<open>Methods of Date used by the application\<close>

text \<open>\<^verbatim>\<open>new Date(value)\<close> for a Date or \<^verbatim>\<open>undefined\<close>: a copy, or an Invalid Date.\<close>

definition newDate :: "int option \<Rightarrow> date" where
  "newDate v = (case v of None \<Rightarrow> None | Some t \<Rightarrow> TimeClip t)"

definition getDay :: "zone \<Rightarrow> date \<Rightarrow> int option" where
  "getDay z d = (case d of None \<Rightarrow> None | Some t \<Rightarrow> Some (WeekDay (LocalTime z t)))"

definition getDate :: "zone \<Rightarrow> date \<Rightarrow> int option" where
  "getDate z d = (case d of None \<Rightarrow> None | Some t \<Rightarrow> Some (DateFromTime (LocalTime z t)))"

definition getMonth :: "zone \<Rightarrow> date \<Rightarrow> int option" where
  "getMonth z d = (case d of None \<Rightarrow> None | Some t \<Rightarrow> Some (MonthFromTime (LocalTime z t)))"

definition getFullYear :: "zone \<Rightarrow> date \<Rightarrow> int option" where
  "getFullYear z d = (case d of None \<Rightarrow> None | Some t \<Rightarrow> Some (YearFromTime (LocalTime z t)))"

definition setDate :: "zone \<Rightarrow> int option \<Rightarrow> date \<Rightarrow> date" where
  "setDate z dt d =
     (case d of
        None \<Rightarrow> None
      | Some t0 \<Rightarrow>
          (case dt of
             None \<Rightarrow> None
           | Some n \<Rightarrow>
               (let t = LocalTime z t0;
                    newDate = MakeDate (MakeDay (YearFromTime t) (MonthFromTime t) n) (TimeWithinDay t)
                in TimeClip (UTC z newDate))))"

definition setHours :: "zone \<Rightarrow> int \<Rightarrow> int \<Rightarrow> int \<Rightarrow> int \<Rightarrow> date \<Rightarrow> date" where
  "setHours z hour minute sec ms d =
     (case d of
        None \<Rightarrow> None
      | Some t0 \<Rightarrow>
          (let t = LocalTime z t0;
               date = MakeDate (Day t) (MakeTime hour minute sec ms)
           in TimeClip (UTC z date)))"

subsection \<open>Numbers and strings\<close>

definition digit :: "nat \<Rightarrow> char" where
  "digit n = ''0123456789'' ! n"

fun decimal :: "nat \<Rightarrow> string" where
  "decimal n = (if n < 10 then [digit n] else decimal (n div 10) @ [digit (n mod 10)])"

declare decimal.simps [simp del]


definition padStart :: "nat \<Rightarrow> char \<Rightarrow> string \<Rightarrow> string" where
  "padStart targetLength c s = replicate (targetLength - length s) c @ s"


text \<open>\<^verbatim>\<open>Math.round\<close>: the nearest integer, a tie going towards \<open>+\<infinity>\<close>.\<close>

definition Math_round :: "rat \<Rightarrow> int" where
  "Math_round x = \<lfloor>x + 1 / 2\<rfloor>"

definition digitValue :: "char \<Rightarrow> nat option" where
  "digitValue c = map_of (zip ''0123456789'' [0, 1, 2, 3, 4, 5, 6, 7, 8, 9]) c"

fun digitsValue :: "nat \<Rightarrow> string \<Rightarrow> nat option" where
  "digitsValue acc [] = Some acc"
| "digitsValue acc (c # cs) =
     (case digitValue c of None \<Rightarrow> None | Some v \<Rightarrow> digitsValue (10 * acc + v) cs)"

datatype error = RangeError

text \<open>
  \<^verbatim>\<open>toISOString\<close>: the UTC fields of the time value; a four-digit year from 0 to 9999,
  a sign and six digits otherwise. An Invalid Date raises \<^verbatim>\<open>RangeError\<close>.
\<close>

definition isoYear :: "int \<Rightarrow> string" where
  "isoYear y =
     (if 0 \<le> y \<and> y \<le> 9999 then padStart 4 (CHR ''0'') (decimal (nat y))
      else (if y < 0 then CHR ''-'' else CHR ''+'') # padStart 6 (CHR ''0'') (decimal (nat \<bar>y\<bar>)))"

definition pad2 :: "int \<Rightarrow> string" where
  "pad2 n = padStart 2 (CHR ''0'') (decimal (nat n))"

definition isoDate :: "int \<Rightarrow> string" where
  "isoDate t = isoYear (YearFromTime t) @ ''-'' @ pad2 (MonthFromTime t + 1) @ ''-''
               @ pad2 (DateFromTime t)"

definition isoTime :: "int \<Rightarrow> string" where
  "isoTime t = pad2 (HourFromTime t) @ '':'' @ pad2 (MinFromTime t) @ '':''
               @ pad2 (SecFromTime t) @ ''.''
               @ padStart 3 (CHR ''0'') (decimal (nat (msFromTime t)))"

definition toISOString :: "date \<Rightarrow> error + string" where
  "toISOString d =
     (case d of
        None \<Rightarrow> Inl RangeError
      | Some t \<Rightarrow> Inr (isoDate t @ ''T'' @ isoTime t @ ''Z''))"

text \<open>\<^verbatim>\<open>s.split('T')[0]\<close>: the part of \<open>s\<close> before its first \<open>T\<close>.\<close>

definition split_T_0 :: "string \<Rightarrow> string" where
  "split_T_0 s = takeWhile (\<lambda>c. c \<noteq> CHR ''T'') s"

text \<open>
  \<^verbatim>\<open>new Date(string)\<close> on the date-only forms \<^verbatim>\<open>YYYY-MM-DD\<close> and \<^verbatim>\<open>\<plusminus>YYYYYY-MM-DD\<close>,
  which denote midnight UTC of that day. Any other string, an illegal field or year
  \<^verbatim>\<open>-000000\<close> gives an Invalid Date here; those are the only strings the aggregation
  parses.
\<close>

definition dateOnly :: "int \<Rightarrow> string \<Rightarrow> date" where
  "dateOnly y rest =
     (if length rest = 6 \<and> rest ! 0 = CHR ''-'' \<and> rest ! 3 = CHR ''-'' then
        (case (digitsValue 0 (take 2 (drop 1 rest)), digitsValue 0 (drop 4 rest)) of
           (Some m, Some dd) \<Rightarrow>
             (if 1 \<le> m \<and> m \<le> 12
                 \<and> 1 \<le> dd
                 \<and> int dd \<le> monthStart (int m) (if DaysInYear y = 366 then 1 else 0)
                             - monthStart (int m - 1) (if DaysInYear y = 366 then 1 else 0)
              then TimeClip (MakeDate (MakeDay y (int m - 1) (int dd)) 0)
              else None)
         | _ \<Rightarrow> None)
      else None)"

definition Date_parse :: "string \<Rightarrow> date" where
  "Date_parse s =
     (if length s = 10 then
        (case digitsValue 0 (take 4 s) of
           None \<Rightarrow> None
         | Some y \<Rightarrow> dateOnly (int y) (drop 4 s))
      else if length s = 13 \<and> (s ! 0 = CHR ''+'' \<or> s ! 0 = CHR ''-'') then
        (case digitsValue 0 (take 6 (drop 1 s)) of
           None \<Rightarrow> None
         | Some y \<Rightarrow>
             (if s ! 0 = CHR ''-'' \<and> y = 0 then None
              else dateOnly (if s ! 0 = CHR ''-'' then - int y else int y) (drop 7 s)))
      else None)"

subsection \<open>dateHelpers\<close>



definition minus_num :: "int option \<Rightarrow> int option \<Rightarrow> int option" where
  "minus_num a b = (case (a, b) of (Some x, Some y) \<Rightarrow> Some (x - y) | _ \<Rightarrow> None)"

definition getWeekStart :: "zone \<Rightarrow> int option \<Rightarrow> date" where
  "getWeekStart z date =
     (let d = newDate date;
          day = getDay z d;
          diff = minus_num (getDate z d) day;
          d = setDate z diff d;
          d = setHours z 0 0 0 0 d
      in d)"

definition getBiweekStart :: "zone \<Rightarrow> int option \<Rightarrow> date" where
  "getBiweekStart z date =
     (let d = newDate date;
          d = setHours z 0 0 0 0 d;
          dayOfMonth = getDate z d;
          period = (case dayOfMonth of None \<Rightarrow> 16 | Some n \<Rightarrow> if n \<le> 15 then 1 else 16);
          d = setDate z (Some period) d
      in d)"

definition getMonthStart :: "zone \<Rightarrow> int option \<Rightarrow> date" where
  "getMonthStart z date =
     (let d = newDate date;
          d = setHours z 0 0 0 0 d;
          d = setDate z (Some 1) d
      in d)"

subsection \<open>Sessions, the store and the component state\<close>

text \<open>
  Text the user types is a JavaScript string: a sequence of UTF-16 code units.
  \<open>utf16\<close> gives the code units of a string of Latin-1 characters.
\<close>

type_synonym jsstring = "16 word list"

definition utf16 :: "string \<Rightarrow> jsstring" where
  "utf16 s = map of_char s"

record session =
  doc_id :: string
  start_time :: "int option"
  end_time :: "int option"
  duration :: "int option"
  jobName :: jsstring

text \<open>
  \<open>store\<close> is the user's session collection at the backend; the other fields are the
  component's state: \<open>db_ready\<close> stands for \<^verbatim>\<open>db && userId\<close>, \<open>snapshot\<close> is the state
  variable \<^verbatim>\<open>sessions\<close>.
\<close>

record app =
  store :: "session list"
  db_ready :: bool
  snapshot :: "session list"
  isTracking :: bool
  jobInput :: jsstring
  error_msg :: "string option"

datatype write_result = Committed | Rejected

text \<open>
  \<^verbatim>\<open>String.prototype.trim\<close> removes, at both ends, the code units of white space and of
  line terminators: tab, line feed, vertical tab, form feed, carriage return, space,
  no-break space, the byte order mark, the line and paragraph separators and the other
  space separators of Unicode.
\<close>

definition is_whitespace :: "16 word \<Rightarrow> bool" where
  "is_whitespace c =
     (c \<in> set [0x09, 0x0A, 0x0B, 0x0C, 0x0D, 0x20, 0xA0, 0x1680, 0x2028, 0x2029,
                0x202F, 0x205F, 0x3000, 0xFEFF]
      \<or> (0x2000 \<le> c \<and> c \<le> 0x200A))"

definition trim :: "jsstring \<Rightarrow> jsstring" where
  "trim s = rev (dropWhile is_whitespace (rev (dropWhile is_whitespace s)))"

text \<open>The query of the listener: the collection ordered by \<open>start_time\<close>, latest first.\<close>

definition orderBy_start_time_desc :: "session list \<Rightarrow> session list" where
  "orderBy_start_time_desc docs =
     sort_key (\<lambda>s. - (case start_time s of None \<Rightarrow> 0 | Some t \<Rightarrow> t))
       (filter (\<lambda>s. start_time s \<noteq> None) docs)"

definition onSnapshot :: "bool \<Rightarrow> app \<Rightarrow> app" where
  "onSnapshot capturedTracking st =
     (let fetchedSessions = orderBy_start_time_desc (store st);
          activeSession = find (\<lambda>s. end_time s = None) fetchedSessions
      in st\<lparr>snapshot := fetchedSessions,
            isTracking := (activeSession \<noteq> None),
            jobInput := (case activeSession of
                           Some a \<Rightarrow> jobName a
                         | None \<Rightarrow> if capturedTracking then [] else jobInput st)\<rparr>)"

definition startTracking :: "int \<Rightarrow> string \<Rightarrow> write_result \<Rightarrow> app \<Rightarrow> app" where
  "startTracking now newId outcome st =
     (if \<not> db_ready st then st
      else
        (case outcome of
           Rejected \<Rightarrow> st\<lparr>error_msg := Some ''Could not start session. Please try again.''\<rparr>
         | Committed \<Rightarrow>
             st\<lparr>store := store st @
                   [\<lparr>doc_id = newId, start_time = Some now, end_time = None, duration = None,
                     jobName = (if trim (jobInput st) = [] then utf16 ''Unspecified Project''
                                else trim (jobInput st))\<rparr>]\<rparr>))"

text \<open>
  \<^verbatim>\<open>updateDoc\<close> fails when the document does not exist. In \<open>stopTracking\<close> every
  failure inside the \<^verbatim>\<open>try\<close> block (a rejected write, \<^verbatim>\<open>getTime\<close> of a missing start
  time) ends in the \<^verbatim>\<open>catch\<close> branch, which sets the error message.
\<close>

definition updateDoc :: "string \<Rightarrow> (session \<Rightarrow> session) \<Rightarrow> session list \<Rightarrow> session list option" where
  "updateDoc i f docs =
     (if i \<in> doc_id ` set docs
      then Some (map (\<lambda>s. if doc_id s = i then f s else s) docs)
      else None)"

definition stopTracking :: "int \<Rightarrow> write_result \<Rightarrow> app \<Rightarrow> app" where
  "stopTracking now outcome st =
     (if \<not> db_ready st then st
      else
        (case find (\<lambda>s. end_time s = None) (snapshot st) of
           None \<Rightarrow> st
         | Some activeSession \<Rightarrow>
             (case start_time activeSession of
                None \<Rightarrow> st\<lparr>error_msg := Some ''Could not stop session. Please check the console.''\<rparr>
              | Some startTime \<Rightarrow>
                  (let durationMs = now - startTime;
                       durationMinutes = Math_round (of_int durationMs / (1000 * 60))
                   in case (outcome,
                            updateDoc (doc_id activeSession)
                              (\<lambda>s. s\<lparr>end_time := Some now, duration := Some durationMinutes\<rparr>)
                              (store st)) of
                        (Committed, Some docs) \<Rightarrow> st\<lparr>store := docs, jobInput := []\<rparr>
                      | _ \<Rightarrow> st\<lparr>error_msg :=
                                  Some ''Could not stop session. Please check the console.''\<rparr>))))"

definition deleteSession :: "bool \<Rightarrow> write_result \<Rightarrow> string \<Rightarrow> app \<Rightarrow> app" where
  "deleteSession confirmed outcome sessionId st =
     (if \<not> db_ready st then st
      else if \<not> confirmed then st
      else
        (case outcome of
           Rejected \<Rightarrow> st\<lparr>error_msg := Some ''Could not delete session. Check the console.''\<rparr>
         | Committed \<Rightarrow> st\<lparr>store := filter (\<lambda>s. doc_id s \<noteq> sessionId) (store st)\<rparr>))"

text \<open>The start/stop button: \<^verbatim>\<open>onClick={isTracking ? stopTracking : startTracking}\<close>.\<close>

definition onClick :: "int \<Rightarrow> string \<Rightarrow> write_result \<Rightarrow> app \<Rightarrow> app" where
  "onClick now newId outcome st =
     (if isTracking st then stopTracking now outcome st
      else startTracking now newId outcome st)"

definition openSessions :: "session list \<Rightarrow> session list" where
  "openSessions docs = filter (\<lambda>s. end_time s = None) docs"

subsection \<open>Totals calculation\<close>

record group =
  start :: date
  sessions :: "session list"
  totalMinutes :: int

text \<open>
  What the memo returns: the empty object \<^verbatim>\<open>{}\<close> for an empty list, else
  \<^verbatim>\<open>{ sortedGroups, totalDurationMinutes }\<close>; then the two property reads, \<^term>\<open>None\<close>
  for \<^verbatim>\<open>undefined\<close>.
\<close>

datatype grouped = EmptyObject | Grouped "group list" int

definition sortedGroups :: "grouped \<Rightarrow> group list option" where
  "sortedGroups r = (case r of EmptyObject \<Rightarrow> None | Grouped gs tot \<Rightarrow> Some gs)"

definition totalDurationMinutes :: "grouped \<Rightarrow> int option" where
  "totalDurationMinutes r = (case r of EmptyObject \<Rightarrow> None | Grouped gs tot \<Rightarrow> Some tot)"

definition getPeriodStart :: "string \<Rightarrow> zone \<Rightarrow> int option \<Rightarrow> date" where
  "getPeriodStart totalPeriod =
     (if totalPeriod = ''monthly'' then getMonthStart
      else if totalPeriod = ''biweekly'' then getBiweekStart
      else getWeekStart)"

text \<open>
  The key of a session's period (lines 269 and 270): the ISO date of its period start;
  \<^verbatim>\<open>toISOString\<close> raises on an Invalid Date.
\<close>

definition periodKey :: "string \<Rightarrow> zone \<Rightarrow> int option \<Rightarrow> error + string" where
  "periodKey totalPeriod z startTime =
     (case toISOString (getPeriodStart totalPeriod z startTime) of
        Inl e \<Rightarrow> Inl e
      | Inr isoString \<Rightarrow> Inr (split_T_0 isoString))"

definition modify :: "string \<Rightarrow> (group \<Rightarrow> group) \<Rightarrow> (string \<times> group) list \<Rightarrow> (string \<times> group) list" where
  "modify k f groups = map (\<lambda>(k', g). if k' = k then (k', f g) else (k', g)) groups"

text \<open>
  The body of the \<^verbatim>\<open>forEach\<close> callback. The object \<open>groups\<close> is an association list in
  insertion order, which is the order \<^verbatim>\<open>Object.keys\<close> enumerates its keys in;
  \<open>runningTotal\<close> is the local variable \<^verbatim>\<open>totalDurationMinutes\<close>.
\<close>

definition visit ::
  "string \<Rightarrow> zone \<Rightarrow> session \<Rightarrow> (string \<times> group) list \<times> int \<Rightarrow> error + (string \<times> group) list \<times> int" where
  "visit totalPeriod z session acc =
     (case acc of (groups, runningTotal) \<Rightarrow>
        (case duration session of
           None \<Rightarrow> Inr (groups, runningTotal)
         | Some dur \<Rightarrow>
             (let periodStartDate = getPeriodStart totalPeriod z (start_time session)
              in case toISOString periodStartDate of
                   Inl e \<Rightarrow> Inl e
                 | Inr isoString \<Rightarrow>
                     (let pKey = split_T_0 isoString;
                          groups = (if map_of groups pKey = None
                                    then groups @ [(pKey, \<lparr>start = periodStartDate, sessions = [],
                                                          totalMinutes = 0\<rparr>)]
                                    else groups);
                          groups = modify pKey (\<lambda>g. g\<lparr>sessions := sessions g @ [session]\<rparr>) groups;
                          groups = modify pKey (\<lambda>g. g\<lparr>totalMinutes := totalMinutes g + dur\<rparr>) groups
                      in Inr (groups, runningTotal + dur)))))"

fun forEach ::
  "string \<Rightarrow> zone \<Rightarrow> session list \<Rightarrow> (string \<times> group) list \<times> int \<Rightarrow> error + (string \<times> group) list \<times> int" where
  "forEach totalPeriod z [] acc = Inr acc"
| "forEach totalPeriod z (s # ss) acc =
     (case visit totalPeriod z s acc of
        Inl e \<Rightarrow> Inl e
      | Inr acc' \<Rightarrow> forEach totalPeriod z ss acc')"

text \<open>
  The comparator \<^verbatim>\<open>(a, b) => new Date(b) - new Date(a)\<close>; \<^term>\<open>None\<close> is \<^verbatim>\<open>NaN\<close>, which
  \<^verbatim>\<open>sort\<close> reads as 0. \<^verbatim>\<open>Array.prototype.sort\<close> is a stable sort; with a consistent
  comparator every stable sort returns the list that this insertion sort returns.
\<close>

definition compareKeys :: "string \<Rightarrow> string \<Rightarrow> int" where
  "compareKeys a b =
     (case minus_num (Date_parse b) (Date_parse a) of None \<Rightarrow> 0 | Some v \<Rightarrow> v)"

fun insertBy :: "('a \<Rightarrow> 'a \<Rightarrow> int) \<Rightarrow> 'a \<Rightarrow> 'a list \<Rightarrow> 'a list" where
  "insertBy cmp x [] = [x]"
| "insertBy cmp x (y # ys) = (if cmp x y \<le> 0 then x # y # ys else y # insertBy cmp x ys)"

definition sortBy :: "('a \<Rightarrow> 'a \<Rightarrow> int) \<Rightarrow> 'a list \<Rightarrow> 'a list" where
  "sortBy cmp xs = foldr (insertBy cmp) xs []"

definition groupedSessions :: "string \<Rightarrow> zone \<Rightarrow> session list \<Rightarrow> error + grouped" where
  "groupedSessions totalPeriod z sess =
     (if length sess = 0 then Inr EmptyObject
      else
        (case forEach totalPeriod z sess ([], 0) of
           Inl e \<Rightarrow> Inl e
         | Inr (groups, tot) \<Rightarrow>
             (let sortedGroupKeys = sortBy compareKeys (map fst groups);
                  sortedGroups = List.map_filter (map_of groups) sortedGroupKeys
              in Inr (Grouped sortedGroups tot))))"

text \<open>\<^verbatim>\<open>groupedSessions.totalDurationMinutes || 0\<close>.\<close>

definition totalMinutesAcrossAllPeriods :: "grouped \<Rightarrow> int" where
  "totalMinutesAcrossAllPeriods r =
     (case totalDurationMinutes r of None \<Rightarrow> 0 | Some n \<Rightarrow> if n = 0 then 0 else n)"

text \<open>
  The groups the table renders:
  \<^verbatim>\<open>groupedSessions.sortedGroups?.length > 0 ? groupedSessions.sortedGroups.map(...) : ...\<close>.
\<close>

definition renderedGroups :: "grouped \<Rightarrow> group list" where
  "renderedGroups r =
     (case sortedGroups r of None \<Rightarrow> [] | Some gs \<Rightarrow> if length gs > 0 then gs else [])"

subsection \<open>Notions used in the statements and proofs\<close>

text \<open>The minutes a session counts for: its stored duration, nothing while it is open.\<close>

abbreviation minutesOf :: "session \<Rightarrow> int" where
  "minutesOf s \<equiv> (case duration s of None \<Rightarrow> 0 | Some m \<Rightarrow> m)"

text \<open>
  The invariant of the \<^verbatim>\<open>forEach\<close> loop after the sessions \<open>seen\<close>: the keys of \<open>groups\<close>
  are distinct; each group holds, in their order in \<open>seen\<close>, the completed sessions of
  its key, their minutes as its total, and a valid period start whose ISO date is its
  key; every completed session seen has its group; the running total is the minutes of
  all completed sessions seen.
\<close>

definition groups_inv :: "string \<Rightarrow> zone \<Rightarrow> session list \<Rightarrow> (string \<times> group) list \<times> int \<Rightarrow> bool" where
  "groups_inv totalPeriod z seen acc =
     (distinct (map fst (fst acc))
      \<and> (\<forall>(k, g) \<in> set (fst acc).
            sessions g = filter (\<lambda>s. duration s \<noteq> None
                                  \<and> periodKey totalPeriod z (start_time s) = Inr k) seen
            \<and> totalMinutes g = sum_list (map minutesOf (sessions g))
            \<and> (\<exists>b. start g = Some b \<and> isoDate b = k \<and> - maxTime \<le> b \<and> b \<le> maxTime))
      \<and> (\<forall>s \<in> set seen. duration s \<noteq> None \<longrightarrow>
            (\<exists>k \<in> fst ` set (fst acc). periodKey totalPeriod z (start_time s) = Inr k))
      \<and> snd acc = sum_list (map minutesOf (filter (\<lambda>s. duration s \<noteq> None) seen)))"

text \<open>
  Two properties of a time zone. In a day-stable zone a local time taken to UTC and
  back is on the same calendar day (a clock change skips at most part of a day, and
  the day it is on keeps the rest). The offsets of a zone spread by at most \<open>B\<close> when
  any two of them, at whatever instants, differ by at most \<open>B\<close> milliseconds; a zone
  with one offset has spread 0.
\<close>

definition dayStable :: "zone \<Rightarrow> bool" where
  "dayStable z = (\<forall>x. Day (LocalTime z (UTC z x)) = Day x)"

definition offsetSpread :: "zone \<Rightarrow> int \<Rightarrow> bool" where
  "offsetSpread z B = (\<forall>t x. \<bar>offsetAtUTC z t - offsetAtLocal z x\<bar> \<le> B)"

text \<open>
  America/Los_Angeles around the end of daylight saving time in 2024: seven hours
  behind UTC before 3 November 2024, 09:00 UTC, eight hours behind from then on. The
  local hour from 01:00 to 02:00 of that day occurs twice and is read with the earlier
  offset, as the Date built-in does.
\<close>

definition losAngeles2024 :: zone where
  "losAngeles2024 =
     \<lparr>offsetAtUTC = (\<lambda>t. if t < 1730624400000 then - 25200000 else - 28800000),
      offsetAtLocal = (\<lambda>x. if x < 1730599200000 then - 25200000 else - 28800000)\<rparr>"

text \<open>The number the comparator reads from a key.\<close>

definition keyTime :: "string \<Rightarrow> int" where
  "keyTime k = (case Date_parse k of None \<Rightarrow> 0 | Some v \<Rightarrow> v)"

section \<open>Properties\<close>

subsection \<open>The calendar\<close>

lemma int_div_bounds: "0 < b \<Longrightarrow> b * (a div b) \<le> a \<and> a < b * (a div b) + (b::int)"
  by (smt (verit) mult.commute pos_mod_bound pos_mod_sign mult_div_mod_eq)

lemma DayFromYear_approx:
  "146097 * (y - 1970) - 506 \<le> 400 * DayFromYear y
   \<and> 400 * DayFromYear y \<le> 146097 * (y - 1970) + 589"
proof -
  define q4 where "q4 = (y - 1969) div 4"
  define q100 where "q100 = (y - 1901) div 100"
  define q400 where "q400 = (y - 1601) div 400"
  have a: "4 * q4 \<le> y - 1969 \<and> y - 1969 < 4 * q4 + 4"
    unfolding q4_def by (rule int_div_bounds) simp
  have b: "100 * q100 \<le> y - 1901 \<and> y - 1901 < 100 * q100 + 100"
    unfolding q100_def by (rule int_div_bounds) simp
  have c: "400 * q400 \<le> y - 1601 \<and> y - 1601 < 400 * q400 + 400"
    unfolding q400_def by (rule int_div_bounds) simp
  have e: "DayFromYear y = 365 * (y - 1970) + q4 - q100 + q400"
    by (simp add: DayFromYear_def q4_def q100_def q400_def)
  have "146097 * (y - 1970) - 506 \<le> 400 * DayFromYear y"
    using a b c unfolding e by simp
  moreover have "400 * DayFromYear y \<le> 146097 * (y - 1970) + 589"
    using a b c unfolding e by simp
  ultimately show ?thesis by blast
qed

lemma YearFromDay_bracket:
  "DayFromYear (YearFromDay d) \<le> d \<and> d < DayFromYear (YearFromDay d + 1)"
proof -
  define K where "K = (400 * d) div 146097"
  have k: "146097 * K \<le> 400 * d \<and> 400 * d < 146097 * K + 146097"
    unfolding K_def by (rule int_div_bounds) simp
  have lo: "400 * DayFromYear (1970 + K - 1) \<le> 146097 * (K - 1) + 589"
    using DayFromYear_approx [of "1970 + K - 1"] by simp
  have hi: "146097 * (K + 2) - 506 \<le> 400 * DayFromYear (1970 + K + 1 + 1)"
    using DayFromYear_approx [of "1970 + K + 1 + 1"] by simp
  show ?thesis
    unfolding YearFromDay_def Let_def K_def [symmetric]
    using k lo hi by (auto simp: algebra_simps)
qed

lemma div_succ:
  assumes "0 < (b::int)"
  shows "(a + 1) div b = (if (a + 1) mod b = 0 then a div b + 1 else a div b)"
proof -
  define q where "q = a div b"
  define r where "r = a mod b"
  have a: "a = b * q + r" by (simp add: q_def r_def)
  have r: "0 \<le> r" "r < b" using assms by (simp_all add: r_def)
  show ?thesis
  proof (cases "r + 1 = b")
    case True
    then have e: "a + 1 = b * (q + 1) + 0" using a by (simp add: algebra_simps)
    have "(a + 1) div b = q + 1" using assms by (intro int_div_pos_eq [OF e]) simp_all
    moreover have "(a + 1) mod b = 0" using assms by (intro int_mod_pos_eq [OF e]) simp_all
    ultimately show ?thesis by (simp add: q_def)
  next
    case False
    then have lt: "r + 1 < b" using r by simp
    have e: "a + 1 = b * q + (r + 1)" using a by simp
    have "(a + 1) div b = q" using r lt by (intro int_div_pos_eq [OF e]) simp_all
    moreover have "(a + 1) mod b = r + 1" using r lt by (intro int_mod_pos_eq [OF e]) simp_all
    ultimately show ?thesis using r by (simp add: q_def)
  qed
qed

lemma mod_shift: "(y - b * k) mod b = y mod (b::int)"
  by algebra

lemma DayFromYear_step: "DayFromYear (y + 1) = DayFromYear y + DaysInYear y"
proof -
  have m4: "(y - 1968) mod 4 = y mod 4" using mod_shift [of y 4 492] by simp
  have m100: "(y - 1900) mod 100 = y mod 100" using mod_shift [of y 100 19] by simp
  have m400: "(y - 1600) mod 400 = y mod 400" using mod_shift [of y 400 4] by simp
  have a: "(y + 1 - 1969) div 4 = (if y mod 4 = 0 then (y - 1969) div 4 + 1 else (y - 1969) div 4)"
    using div_succ [of 4 "y - 1969"] m4 by simp
  have b: "(y + 1 - 1901) div 100 = (if y mod 100 = 0 then (y - 1901) div 100 + 1 else (y - 1901) div 100)"
    using div_succ [of 100 "y - 1901"] m100 by simp
  have c: "(y + 1 - 1601) div 400 = (if y mod 400 = 0 then (y - 1601) div 400 + 1 else (y - 1601) div 400)"
    using div_succ [of 400 "y - 1601"] m400 by simp
  have d: "y mod 400 = 0 \<Longrightarrow> y mod 100 = 0"
    by force
  have e: "y mod 100 = 0 \<Longrightarrow> y mod 4 = 0" 
    by fastforce
  show ?thesis
    unfolding DayFromYear_def DaysInYear_def a b c using d e by auto
qed


lemma DaysInYear_cases: "DaysInYear y = 365 \<or> DaysInYear y = 366"
  by (simp add: DaysInYear_def)

lemma DayFromYear_less_Suc: "DayFromYear y < DayFromYear (y + 1)"
  using DaysInYear_cases [of y] by (auto simp: DayFromYear_step)

lemma DayFromYear_mono: "y \<le> y' \<Longrightarrow> DayFromYear y \<le> DayFromYear y'"
proof (induction y' rule: int_ge_induct)
  case base
  show ?case by simp
next
  case (step i)
  with DayFromYear_less_Suc [of i] show ?case by simp
qed

lemma YearFromDay_unique:
  assumes "DayFromYear y \<le> d" and "d < DayFromYear (y + 1)"
  shows "YearFromDay d = y"
proof (rule ccontr)
  assume ne: "YearFromDay d \<noteq> y"
  let ?z = "YearFromDay d"
  have br: "DayFromYear ?z \<le> d" "d < DayFromYear (?z + 1)"
    using YearFromDay_bracket [of d] by simp_all
  show False
  proof (cases "?z < y")
    case True
    then have "DayFromYear (?z + 1) \<le> DayFromYear y" by (intro DayFromYear_mono) simp
    with assms(1) br(2) show False by simp
  next
    case False
    with ne have "DayFromYear (y + 1) \<le> DayFromYear ?z" by (intro DayFromYear_mono) simp
    with assms(2) br(1) show False by simp
  qed
qed

lemma InLeapYear_cases: "InLeapYear t = 0 \<or> InLeapYear t = 1"
  by (simp add: InLeapYear_def)

lemma DayWithinYear_bounds: "0 \<le> DayWithinYear t \<and> DayWithinYear t < 365 + InLeapYear t"
proof -
  have "DayFromYear (YearFromTime t + 1) = DayFromYear (YearFromTime t) + 365 + InLeapYear t"
    using DaysInYear_cases [of "YearFromTime t"] by (auto simp: DayFromYear_step InLeapYear_def)
  with YearFromDay_bracket [of "Day t"] show ?thesis
    by (simp add: DayWithinYear_def YearFromTime_def)
qed

lemma monthOfYearDay_range: "0 \<le> monthOfYearDay d l \<and> monthOfYearDay d l \<le> 11"
  by (simp add: monthOfYearDay_def)

lemma monthOfYearDay_bracket:
  assumes "0 \<le> d" and "d < 365 + l"
  shows "monthStart (monthOfYearDay d l) l \<le> d \<and> d < monthStart (monthOfYearDay d l + 1) l"
  using assms by (simp add: monthOfYearDay_def monthStart_def)

lemma monthOfYearDay_unique:
  assumes "0 \<le> m" and "m \<le> 11" and "l = 0 \<or> l = 1"
    and "monthStart m l \<le> d" and "d < monthStart (m + 1) l"
  shows "monthOfYearDay d l = m"
proof -
  from assms(1,2) have "m = 0 \<or> m = 1 \<or> m = 2 \<or> m = 3 \<or> m = 4 \<or> m = 5 \<or> m = 6
      \<or> m = 7 \<or> m = 8 \<or> m = 9 \<or> m = 10 \<or> m = 11" by arith
  then show ?thesis
    using assms(3,4,5) by (elim disjE) (simp_all add: monthOfYearDay_def monthStart_def)
qed

lemma monthStart_nonneg: "0 \<le> m \<Longrightarrow> 0 \<le> l \<Longrightarrow> 0 \<le> monthStart m l"
  by (simp add: monthStart_def)

lemma monthStart_length:
  assumes "0 \<le> m" and "m \<le> 11" and "l = 0 \<or> l = 1"
  shows "28 \<le> monthStart (m + 1) l - monthStart m l \<and> monthStart (m + 1) l \<le> 365 + l"
proof -
  from assms(1,2) have "m = 0 \<or> m = 1 \<or> m = 2 \<or> m = 3 \<or> m = 4 \<or> m = 5 \<or> m = 6
      \<or> m = 7 \<or> m = 8 \<or> m = 9 \<or> m = 10 \<or> m = 11" by arith
  then show ?thesis
    using assms(3) by (elim disjE) (auto simp add: monthStart_def)
qed

lemma MonthFromTime_range: "0 \<le> MonthFromTime t \<and> MonthFromTime t \<le> 11"
  by (simp add: MonthFromTime_def monthOfYearDay_range)

lemma DateFromTime_range:
  "1 \<le> DateFromTime t
   \<and> DateFromTime t \<le> monthStart (MonthFromTime t + 1) (InLeapYear t)
                         - monthStart (MonthFromTime t) (InLeapYear t)"
  using monthOfYearDay_bracket [of "DayWithinYear t" "InLeapYear t"] DayWithinYear_bounds [of t]
  by (simp add: DateFromTime_def MonthFromTime_def)

lemma MakeDay_same_month:
  "MakeDay (YearFromTime t) (MonthFromTime t) n = Day t - DateFromTime t + n"
proof -
  have "MonthFromTime t div 12 = 0" "MonthFromTime t mod 12 = MonthFromTime t"
    using MonthFromTime_range [of t] by simp_all
  then show ?thesis
    by (simp add: MakeDay_def DateFromTime_def DayWithinYear_def InLeapYear_def)
qed

text \<open>Moving within the month: the day \<open>p\<close> of the month of \<open>t\<close>.\<close>

lemma same_month:
  assumes d: "Day t' = Day t - DateFromTime t + p" and p: "1 \<le> p" "p \<le> 28"
  shows "YearFromTime t' = YearFromTime t \<and> MonthFromTime t' = MonthFromTime t
         \<and> DateFromTime t' = p"
proof -
  let ?Y = "YearFromTime t" and ?M = "MonthFromTime t" and ?l = "InLeapYear t"
  have D: "Day t' = DayFromYear ?Y + monthStart ?M ?l + p - 1"
    using d by (simp add: DateFromTime_def DayWithinYear_def)
  have l: "?l = 0 \<or> ?l = 1" by (rule InLeapYear_cases)
  have M: "0 \<le> ?M" "?M \<le> 11" using MonthFromTime_range [of t] by simp_all
  have len: "28 \<le> monthStart (?M + 1) ?l - monthStart ?M ?l" "monthStart (?M + 1) ?l \<le> 365 + ?l"
    using monthStart_length [OF M l] by simp_all
  have ms: "0 \<le> monthStart ?M ?l" using M l by (intro monthStart_nonneg) auto
  have next_year: "DayFromYear (?Y + 1) = DayFromYear ?Y + 365 + ?l"
    using DaysInYear_cases [of ?Y] by (auto simp: DayFromYear_step InLeapYear_def)
  have Y: "YearFromTime t' = ?Y"
    unfolding YearFromTime_def [of t']
    using D p ms len next_year by (intro YearFromDay_unique) simp_all
  then have l': "InLeapYear t' = ?l" by (simp add: InLeapYear_def)
  have yd: "DayWithinYear t' = monthStart ?M ?l + p - 1"
    using D Y by (simp add: DayWithinYear_def)
  have Mo: "MonthFromTime t' = ?M"
    unfolding MonthFromTime_def [of t'] l' yd
    using M l p len by (intro monthOfYearDay_unique) simp_all
  show ?thesis using Y Mo yd l' by (simp add: DateFromTime_def)
qed


lemma Day_decomp: "Day t * msPerDay + TimeWithinDay t = t"
  by (simp add: Day_def TimeWithinDay_def)

lemma TimeWithinDay_bounds: "0 \<le> TimeWithinDay t \<and> TimeWithinDay t < msPerDay"
  by (simp add: TimeWithinDay_def msPerDay_def)

lemma Day_shift: "Day (t + k * msPerDay) = Day t + k"
  by (simp add: Day_def msPerDay_def)

lemma TimeWithinDay_shift: "TimeWithinDay (t + k * msPerDay) = TimeWithinDay t"
  by (simp add: TimeWithinDay_def msPerDay_def)

lemma Day_midnight: "Day (t - TimeWithinDay t) = Day t \<and> TimeWithinDay (t - TimeWithinDay t) = 0"
proof -
  have "t - TimeWithinDay t = Day t * msPerDay" using Day_decomp [of t] by simp
  then show ?thesis by (simp add: Day_def TimeWithinDay_def msPerDay_def)
qed

lemma WeekDay_bounds: "0 \<le> WeekDay t \<and> WeekDay t \<le> 6"
  by (simp add: WeekDay_def)

lemma setDate_Some:
  "setDate z (Some n) (Some t0) =
     TimeClip (UTC z (LocalTime z t0 + (n - DateFromTime (LocalTime z t0)) * msPerDay))"
proof -
  let ?t = "LocalTime z t0"
  have "MakeDate (MakeDay (YearFromTime ?t) (MonthFromTime ?t) n) (TimeWithinDay ?t)
        = ?t + (n - DateFromTime ?t) * msPerDay"
    using Day_decomp [of ?t] by (simp add: MakeDate_def MakeDay_same_month algebra_simps)
  then show ?thesis by (simp add: setDate_def Let_def)
qed

lemma setHours_midnight:
  "setHours z 0 0 0 0 (Some t0) = TimeClip (UTC z (Day (LocalTime z t0) * msPerDay))"
  by (simp add: setHours_def Let_def MakeDate_def MakeTime_def)

lemma TimeClip_Some: "- maxTime \<le> t \<Longrightarrow> t \<le> maxTime \<Longrightarrow> TimeClip t = Some t"
  by (simp add: TimeClip_def)

lemma TimeClip_SomeD: "TimeClip x = Some y \<Longrightarrow> y = x \<and> - maxTime \<le> x \<and> x \<le> maxTime"
  by (auto simp: TimeClip_def split: if_splits)

lemma setHours_None: "setHours z h m s ms None = None"
  by (simp add: setHours_def)

lemma setDate_None: "setDate z dt None = None"
  by (simp add: setDate_def)

subsection \<open>Time zones\<close>

lemma dayStable_fixedZone: "dayStable (fixedZone tza)"
  by (simp add: dayStable_def fixedZone_def LocalTime_def UTC_def)

lemma offsetSpread_fixedZone: "offsetSpread (fixedZone tza) 0"
  by (simp add: offsetSpread_def fixedZone_def)

lemma LocalTime_UTC_losAngeles2024: "LocalTime losAngeles2024 (UTC losAngeles2024 x) = x"
  by (simp add: losAngeles2024_def LocalTime_def UTC_def)

lemma dayStable_losAngeles2024: "dayStable losAngeles2024"
  by (simp add: dayStable_def LocalTime_UTC_losAngeles2024)

lemma offsetSpread_losAngeles2024: "offsetSpread losAngeles2024 3600000"
  by (simp add: offsetSpread_def losAngeles2024_def)

lemma dayStableD: "dayStable z \<Longrightarrow> Day (LocalTime z (UTC z x)) = Day x"
  by (simp add: dayStable_def)

text \<open>A local time moved by \<open>k\<close> and taken back to UTC is within the spread of \<open>t + k\<close>.\<close>

lemma UTC_near:
  assumes "offsetSpread z B"
  shows "t + k - B \<le> UTC z (LocalTime z t + k) \<and> UTC z (LocalTime z t + k) \<le> t + k + B"
proof -
  have "\<bar>offsetAtUTC z t - offsetAtLocal z (LocalTime z t + k)\<bar> \<le> B"
    using assms by (simp add: offsetSpread_def)
  then show ?thesis by (simp add: UTC_def LocalTime_def abs_le_iff)
qed

lemma midnight_near:
  assumes "offsetSpread z B"
  shows "t - msPerDay - B \<le> UTC z (Day (LocalTime z t) * msPerDay)
         \<and> UTC z (Day (LocalTime z t) * msPerDay) \<le> t + B"
proof -
  let ?tl = "LocalTime z t"
  have e: "Day ?tl * msPerDay = ?tl + (- TimeWithinDay ?tl)" using Day_decomp [of ?tl] by simp
  show ?thesis
    unfolding e using UTC_near [OF assms, of t "- TimeWithinDay ?tl"] TimeWithinDay_bounds [of ?tl]
    by linarith
qed

subsection \<open>DurationFormatter\<close>






subsection \<open>PeriodCalculator\<close>

lemma calendar_cong:
  assumes "Day a = Day b"
  shows "YearFromTime a = YearFromTime b" and "MonthFromTime a = MonthFromTime b"
    and "DateFromTime a = DateFromTime b"
proof -
  show y: "YearFromTime a = YearFromTime b" using assms by (simp add: YearFromTime_def)
  have l: "InLeapYear a = InLeapYear b" using y by (simp add: InLeapYear_def)
  have d: "DayWithinYear a = DayWithinYear b" using y assms by (simp add: DayWithinYear_def)
  show m: "MonthFromTime a = MonthFromTime b" using l d by (simp add: MonthFromTime_def)
  show "DateFromTime a = DateFromTime b" using l d m by (simp add: DateFromTime_def)
qed

lemma DateFromTime_le_31: "DateFromTime t \<le> 31"
proof -
  let ?m = "MonthFromTime t" and ?l = "InLeapYear t"
  have "0 \<le> ?m" "?m \<le> 11" using MonthFromTime_range [of t] by simp_all
  then have "?m = 0 \<or> ?m = 1 \<or> ?m = 2 \<or> ?m = 3 \<or> ?m = 4 \<or> ?m = 5 \<or> ?m = 6
      \<or> ?m = 7 \<or> ?m = 8 \<or> ?m = 9 \<or> ?m = 10 \<or> ?m = 11" by arith
  then have "monthStart (?m + 1) ?l - monthStart ?m ?l \<le> 31"
    using InLeapYear_cases [of t] by (elim disjE) (auto simp add: monthStart_def)
  with DateFromTime_range [of t] show ?thesis by simp
qed

lemma setHours_bounds:
  "setHours z h mi s ms d = Some w \<Longrightarrow> - maxTime \<le> w \<and> w \<le> maxTime"
  by (auto simp: setHours_def Let_def dest: TimeClip_SomeD split: option.splits)

lemma setDate_bounds:
  "setDate z n d = Some b \<Longrightarrow> - maxTime \<le> b \<and> b \<le> maxTime"
  by (auto simp: setDate_def Let_def dest: TimeClip_SomeD split: option.splits)

lemma newDate_SomeD: "newDate d = Some t \<Longrightarrow> d = Some t \<and> - maxTime \<le> t \<and> t \<le> maxTime"
  by (auto simp: newDate_def dest: TimeClip_SomeD split: option.splits)

lemma getPeriodStart_SomeD:
  assumes "getPeriodStart totalPeriod z d = Some b"
  shows "- maxTime \<le> b \<and> b \<le> maxTime"
  using assms setHours_bounds setDate_bounds
  by (auto simp: getPeriodStart_def getWeekStart_def getBiweekStart_def getMonthStart_def Let_def
      split: if_splits)

text \<open>What the week start is, when it is a valid date, in a day-stable zone.\<close>

lemma getWeekStart_SomeD:
  assumes st: "dayStable z" and w: "getWeekStart z d = Some w"
  shows "\<exists>t. d = Some t \<and> - maxTime \<le> t \<and> t \<le> maxTime
             \<and> w = UTC z ((Day (LocalTime z t) - WeekDay (LocalTime z t)) * msPerDay)
             \<and> Day (LocalTime z w) = Day (LocalTime z t) - WeekDay (LocalTime z t)"
proof (cases "newDate d")
  case None
  with w show ?thesis
    by (simp add: getWeekStart_def getDay_def getDate_def minus_num_def
        setDate_None setHours_None)
next
  case (Some t)
  from newDate_SomeD [OF this] have t: "d = Some t" "- maxTime \<le> t" "t \<le> maxTime" by simp_all
  let ?tl = "LocalTime z t"
  let ?x = "?tl + (- WeekDay ?tl) * msPerDay"
  have sd: "setDate z (Some (DateFromTime ?tl - WeekDay ?tl)) (Some t) = TimeClip (UTC z ?x)"
    by (simp add: setDate_Some)
  have sh: "setHours z 0 0 0 0 (TimeClip (UTC z ?x)) = Some w"
    using w by (simp add: getWeekStart_def Let_def Some getDay_def getDate_def minus_num_def sd)
  show ?thesis
  proof (cases "TimeClip (UTC z ?x)")
    case None
    with sh show ?thesis by (simp add: setHours_None)
  next
    case (Some u)
    from TimeClip_SomeD [OF this] have u: "u = UTC z ?x" by simp
    have du: "Day (LocalTime z u) = Day ?tl - WeekDay ?tl"
      unfolding u dayStableD [OF st] Day_shift by simp
    from sh have "TimeClip (UTC z ((Day ?tl - WeekDay ?tl) * msPerDay)) = Some w"
      unfolding Some by (simp only: setHours_midnight du)
    from TimeClip_SomeD [OF this]
    have e: "w = UTC z ((Day ?tl - WeekDay ?tl) * msPerDay)" by simp
    have "Day (LocalTime z w) = Day ((Day ?tl - WeekDay ?tl) * msPerDay)"
      unfolding e by (rule dayStableD [OF st])
    also have "\<dots> = Day ?tl - WeekDay ?tl" using Day_shift [of 0] by (simp add: Day_def)
    finally show ?thesis using t e by simp
  qed
qed

text \<open>Midnight, then day \<open>p\<close> of the month: the common part of the biweek and month start.\<close>

lemma snap_SomeD:
  assumes st: "dayStable z"
    and b: "setDate z (Some p) (setHours z 0 0 0 0 (newDate d)) = Some b"
  shows "\<exists>t u. d = Some t \<and> - maxTime \<le> t \<and> t \<le> maxTime
             \<and> setHours z 0 0 0 0 (newDate d) = Some u
             \<and> Day (LocalTime z u) = Day (LocalTime z t)
             \<and> Day (LocalTime z b) = Day (LocalTime z t) + (p - DateFromTime (LocalTime z t))"
proof (cases "newDate d")
  case None
  with b show ?thesis by (simp add: setHours_None setDate_None)
next
  case (Some t)
  from newDate_SomeD [OF this] have t: "d = Some t" "- maxTime \<le> t" "t \<le> maxTime" by simp_all
  let ?tl = "LocalTime z t"
  have sh: "setHours z 0 0 0 0 (newDate d) = TimeClip (UTC z (Day ?tl * msPerDay))"
    unfolding Some by (rule setHours_midnight)
  show ?thesis
  proof (cases "TimeClip (UTC z (Day ?tl * msPerDay))")
    case None
    with b sh show ?thesis by (simp add: setDate_None)
  next
    case (Some u)
    from TimeClip_SomeD [OF this] have u: "u = UTC z (Day ?tl * msPerDay)" by simp
    have "Day (LocalTime z u) = Day (Day ?tl * msPerDay)" unfolding u by (rule dayStableD [OF st])
    also have "\<dots> = Day ?tl" by (simp add: Day_def)
    finally have du: "Day (LocalTime z u) = Day ?tl" .
    then have dd: "DateFromTime (LocalTime z u) = DateFromTime ?tl" by (rule calendar_cong)
    let ?x = "LocalTime z u + (p - DateFromTime ?tl) * msPerDay"
    from b have "TimeClip (UTC z ?x) = Some b"
      unfolding sh Some by (simp only: setDate_Some dd)
    from TimeClip_SomeD [OF this] have e: "b = UTC z ?x" by simp
    have "Day (LocalTime z b) = Day ?x" unfolding e by (rule dayStableD [OF st])
    also have "\<dots> = Day ?tl + (p - DateFromTime ?tl)" by (simp only: Day_shift du)
    finally show ?thesis using t sh Some du by simp
  qed
qed

lemma getBiweekStart_SomeD:
  assumes st: "dayStable z" and b: "getBiweekStart z d = Some b"
  shows "\<exists>t. d = Some t \<and> - maxTime \<le> t \<and> t \<le> maxTime
             \<and> Day (LocalTime z b) = Day (LocalTime z t)
                 + ((if DateFromTime (LocalTime z t) \<le> 15 then 1 else 16)
                    - DateFromTime (LocalTime z t))"
proof -
  let ?p = "(case getDate z (setHours z 0 0 0 0 (newDate d)) of
              None \<Rightarrow> (16::int) | Some n \<Rightarrow> (if n \<le> 15 then 1 else 16))"
  have a: "setDate z (Some ?p) (setHours z 0 0 0 0 (newDate d)) = Some b"
    using b by (simp add: getBiweekStart_def Let_def)
  from snap_SomeD [OF st a] obtain t u where t: "d = Some t" "- maxTime \<le> t" "t \<le> maxTime"
    "setHours z 0 0 0 0 (newDate d) = Some u" "Day (LocalTime z u) = Day (LocalTime z t)"
    "Day (LocalTime z b) = Day (LocalTime z t) + (?p - DateFromTime (LocalTime z t))" by blast
  have dd: "DateFromTime (LocalTime z u) = DateFromTime (LocalTime z t)"
    using t(5) by (rule calendar_cong)
  have "?p = (if DateFromTime (LocalTime z t) \<le> 15 then 1 else 16)"
    unfolding t(4) by (simp add: getDate_def dd)
  with t show ?thesis by simp
qed

lemma getMonthStart_SomeD:
  assumes st: "dayStable z" and b: "getMonthStart z d = Some b"
  shows "\<exists>t. d = Some t \<and> - maxTime \<le> t \<and> t \<le> maxTime
             \<and> Day (LocalTime z b) = Day (LocalTime z t) + (1 - DateFromTime (LocalTime z t))"
proof -
  have a: "setDate z (Some 1) (setHours z 0 0 0 0 (newDate d)) = Some b"
    using b by (simp add: getMonthStart_def Let_def)
  from snap_SomeD [OF st a] show ?thesis by blast
qed

text \<open>When the period start is a valid date.\<close>

lemma offsetSpread_nonneg: "offsetSpread z B \<Longrightarrow> 0 \<le> B"
proof -
  assume "offsetSpread z B"
  then have "\<bar>offsetAtUTC z 0 - offsetAtLocal z 0\<bar> \<le> B" by (simp add: offsetSpread_def)
  then show ?thesis by linarith
qed

lemma midnight_valid:
  assumes sp: "offsetSpread z B" and lo: "- maxTime + msPerDay + B \<le> t" and hi: "t + B \<le> maxTime"
  shows "\<exists>u. setHours z 0 0 0 0 (Some t) = Some u \<and> t - msPerDay - B \<le> u \<and> u \<le> t + B"
proof -
  let ?u = "UTC z (Day (LocalTime z t) * msPerDay)"
  note n = midnight_near [OF sp, of t]
  have "TimeClip ?u = Some ?u" by (rule TimeClip_Some) (use n lo hi in linarith)+
  with n show ?thesis by (simp add: setHours_midnight)
qed

lemma setDate_valid:
  assumes sp: "offsetSpread z B" and k: "- j * msPerDay \<le> (n - DateFromTime (LocalTime z u)) * msPerDay"
      "(n - DateFromTime (LocalTime z u)) * msPerDay \<le> 0"
    and lo: "- maxTime + j * msPerDay + B \<le> u" and hi: "u + B \<le> maxTime"
  shows "\<exists>b. setDate z (Some n) (Some u) = Some b \<and> u - j * msPerDay - B \<le> b \<and> b \<le> u + B"
proof -
  define k where "k = (n - DateFromTime (LocalTime z u)) * msPerDay"
  define jm where "jm = j * msPerDay"
  let ?b = "UTC z (LocalTime z u + k)"
  note nb = UTC_near [OF sp, of u k]
  have kk: "- jm \<le> k" "k \<le> 0" using k by (simp_all add: k_def jm_def)
  have lo': "- maxTime + jm + B \<le> u" using lo by (simp add: jm_def)
  have "TimeClip ?b = Some ?b" by (rule TimeClip_Some) (use nb kk lo' hi in linarith)+
  moreover have "u - jm - B \<le> ?b" "?b \<le> u + B" using nb kk by linarith+
  ultimately show ?thesis unfolding setDate_Some k_def [symmetric] jm_def [symmetric] by simp
qed

lemma newDate_valid: "- maxTime \<le> t \<Longrightarrow> t \<le> maxTime \<Longrightarrow> newDate (Some t) = Some t"
  by (simp add: newDate_def TimeClip_Some)

lemma getWeekStart_valid:
  assumes sp: "offsetSpread z B" and lo: "- maxTime + 7 * msPerDay + 2 * B \<le> t"
    and hi: "t + 2 * B \<le> maxTime"
  shows "\<exists>w. getWeekStart z (Some t) = Some w"
proof -
  let ?tl = "LocalTime z t"
  have mp: "0 < msPerDay" by (simp add: msPerDay_def)
  note B = offsetSpread_nonneg [OF sp]
  have n: "newDate (Some t) = Some t" by (rule newDate_valid) (use lo hi B mp in linarith)+
  have wd: "0 \<le> WeekDay ?tl" "WeekDay ?tl \<le> 6" using WeekDay_bounds [of ?tl] by simp_all
  have k: "- 6 * msPerDay \<le> (DateFromTime ?tl - WeekDay ?tl - DateFromTime ?tl) * msPerDay"
    "(DateFromTime ?tl - WeekDay ?tl - DateFromTime ?tl) * msPerDay \<le> 0"
    using wd mp by simp_all
  have "\<exists>u. setDate z (Some (DateFromTime ?tl - WeekDay ?tl)) (Some t) = Some u
            \<and> t - 6 * msPerDay - B \<le> u \<and> u \<le> t + B"
    by (rule setDate_valid [OF sp k]) (use lo hi B mp in linarith)+
  then obtain u where u: "setDate z (Some (DateFromTime ?tl - WeekDay ?tl)) (Some t) = Some u"
    "t - 6 * msPerDay - B \<le> u" "u \<le> t + B" by blast
  have "\<exists>w. setHours z 0 0 0 0 (Some u) = Some w \<and> u - msPerDay - B \<le> w \<and> w \<le> u + B"
    by (rule midnight_valid [OF sp]) (use lo hi u in linarith)+
  then show ?thesis
    by (auto simp add: getWeekStart_def Let_def n getDay_def getDate_def minus_num_def u(1))
qed

lemma snap_valid:
  assumes sp: "offsetSpread z B" and lo: "- maxTime + 31 * msPerDay + 2 * B \<le> t"
    and hi: "t + 2 * B \<le> maxTime"
  shows "\<exists>u. setHours z 0 0 0 0 (newDate (Some t)) = Some u
            \<and> (\<forall>p. 1 \<le> p \<and> p \<le> DateFromTime (LocalTime z u)
                   \<longrightarrow> (\<exists>b. setDate z (Some p) (Some u) = Some b))"
proof -
  have mp: "0 < msPerDay" by (simp add: msPerDay_def)
  note B = offsetSpread_nonneg [OF sp]
  have n: "newDate (Some t) = Some t" by (rule newDate_valid) (use lo hi B mp in linarith)+
  have "\<exists>u. setHours z 0 0 0 0 (Some t) = Some u \<and> t - msPerDay - B \<le> u \<and> u \<le> t + B"
    by (rule midnight_valid [OF sp]) (use lo hi B mp in linarith)+
  then obtain u where u: "setHours z 0 0 0 0 (Some t) = Some u"
    "t - msPerDay - B \<le> u" "u \<le> t + B" by blast
  have "\<exists>b. setDate z (Some p) (Some u) = Some b"
    if p: "1 \<le> p \<and> p \<le> DateFromTime (LocalTime z u)" for p
  proof -
    let ?D = "DateFromTime (LocalTime z u)"
    have "- 30 \<le> p - ?D" using DateFromTime_le_31 [of "LocalTime z u"] p by simp
    then have "- 30 * msPerDay \<le> (p - ?D) * msPerDay"
      using mp by (intro mult_right_mono) simp_all
    moreover have "(p - ?D) * msPerDay \<le> 0" using p mp by (simp add: mult_le_0_iff)
    moreover have "- maxTime + 30 * msPerDay + B \<le> u" "u + B \<le> maxTime"
      using lo hi u by linarith+
    ultimately have "\<exists>b. setDate z (Some p) (Some u) = Some b
        \<and> u - 30 * msPerDay - B \<le> b \<and> b \<le> u + B"
      using setDate_valid [OF sp, of 30 p u] by simp
    then show ?thesis by blast
  qed
  with u(1) n show ?thesis by simp
qed

lemma getPeriodStart_valid:
  assumes sp: "offsetSpread z B" and lo: "- maxTime + 31 * msPerDay + 2 * B \<le> t"
    and hi: "t + 2 * B \<le> maxTime"
  shows "\<exists>b. getPeriodStart totalPeriod z (Some t) = Some b \<and> - maxTime \<le> b \<and> b \<le> maxTime"
proof -
  have mp: "0 < msPerDay" by (simp add: msPerDay_def)
  from snap_valid [OF assms] obtain u where u: "setHours z 0 0 0 0 (newDate (Some t)) = Some u"
    and s: "\<And>p. 1 \<le> p \<and> p \<le> DateFromTime (LocalTime z u)
                   \<Longrightarrow> \<exists>b. setDate z (Some p) (Some u) = Some b" by blast
  have dd: "1 \<le> DateFromTime (LocalTime z u)" using DateFromTime_range [of "LocalTime z u"] by simp
  have m: "\<exists>b. getMonthStart z (Some t) = Some b"
    using s [of 1] dd by (simp add: getMonthStart_def Let_def u)
  have b: "\<exists>b. getBiweekStart z (Some t) = Some b"
    using s [of 1] s [of 16] dd by (simp add: getBiweekStart_def Let_def u getDate_def)
  have "- maxTime + 7 * msPerDay + 2 * B \<le> t" using lo mp by linarith
  from getWeekStart_valid [OF sp this hi] have w: "\<exists>w. getWeekStart z (Some t) = Some w" .
  from m b w have "\<exists>b. getPeriodStart totalPeriod z (Some t) = Some b"
    by (simp add: getPeriodStart_def)
  with getPeriodStart_SomeD show ?thesis by blast
qed

lemma Day_times: "Day (n * msPerDay) = n" and TimeWithinDay_times: "TimeWithinDay (n * msPerDay) = 0"
  by (simp_all add: Day_def TimeWithinDay_def msPerDay_def)

text \<open>
  Claim C3, as written, fails where the clock changes. In Los Angeles, for \<open>d\<close> =
  Saturday 9 November 2024, 23:59:59 local time, \<open>getWeekStart d\<close> is Sunday 3 November,
  00:00 local time, which is before the end of daylight saving time on that Sunday:
  \<open>d\<close> minus the week start is 7 days, 59 minutes and 59 seconds.
\<close>

theorem getWeekStart_clock_change_counterexample:
  "getWeekStart losAngeles2024 (Some 1731225599000) = Some 1730617200000
   \<and> getDay losAngeles2024 (Some 1730617200000) = Some 0
   \<and> \<not> ((1731225599000::int) - 1730617200000 < 7 * msPerDay)"
  by code_simp

text \<open>
  Claim C3, amended. In a day-stable time zone, for every date \<open>d\<close> the date \<open>w\<close> that
  \<open>getWeekStart d\<close> returns falls on a Sunday in local time, and its local calendar day
  is that of \<open>d\<close> or one of the six days before. When the zone has the midnight of
  that Sunday as a local time (taking it to UTC and back gives it again), \<open>w\<close> is at that
  local midnight, and the local time of \<open>d\<close> minus the local time of \<open>w\<close> is at least 0
  and less than seven days; \<open>d - w\<close> itself is at least 0 and less than seven days when
  the UTC offset is the same at \<open>d\<close> and at \<open>w\<close>. A date is returned for every \<open>d\<close> that is
  at least seven days plus twice the spread of the zone's offsets after the earliest
  time value, and at least twice the spread before the latest.
\<close>

theorem getWeekStart_sunday:
  assumes st: "dayStable z"
  shows "(\<forall>w. getWeekStart z d = Some w \<longrightarrow>
      (\<exists>t. d = Some t
           \<and> getDay z (Some w) = Some 0
           \<and> 0 \<le> Day (LocalTime z t) - Day (LocalTime z w)
           \<and> Day (LocalTime z t) - Day (LocalTime z w) \<le> 6
           \<and> (LocalTime z (UTC z (Day (LocalTime z w) * msPerDay)) = Day (LocalTime z w) * msPerDay
                \<longrightarrow> TimeWithinDay (LocalTime z w) = 0
                  \<and> 0 \<le> LocalTime z t - LocalTime z w
                  \<and> LocalTime z t - LocalTime z w < 7 * msPerDay
                  \<and> (offsetAtUTC z t = offsetAtUTC z w
                       \<longrightarrow> 0 \<le> t - w \<and> t - w < 7 * msPerDay))))
   \<and> (\<forall>t B. d = Some t \<and> offsetSpread z B
          \<and> - maxTime + 7 * msPerDay + 2 * B \<le> t \<and> t + 2 * B \<le> maxTime \<longrightarrow>
          getWeekStart z d \<noteq> None)"
proof (rule conjI; intro allI impI)
  fix w
  assume "getWeekStart z d = Some w"
  from getWeekStart_SomeD [OF st this] obtain t where d: "d = Some t"
    and w: "w = UTC z ((Day (LocalTime z t) - WeekDay (LocalTime z t)) * msPerDay)"
    and dw: "Day (LocalTime z w) = Day (LocalTime z t) - WeekDay (LocalTime z t)"
    by blast
  let ?tl = "LocalTime z t"
  have mp: "0 < msPerDay" by (simp add: msPerDay_def)
  have wd: "0 \<le> WeekDay ?tl" "WeekDay ?tl \<le> 6" using WeekDay_bounds [of ?tl] by simp_all
  have wm: "0 \<le> WeekDay ?tl * msPerDay" "WeekDay ?tl * msPerDay \<le> 6 * msPerDay"
    using wd mp by simp_all
  have tw: "0 \<le> TimeWithinDay ?tl" "TimeWithinDay ?tl < msPerDay"
    using TimeWithinDay_bounds [of ?tl] by simp_all
  have "WeekDay (LocalTime z w) = (Day ?tl - WeekDay ?tl + 4) mod 7"
    by (simp only: WeekDay_def [of "LocalTime z w"] dw)
  also have "\<dots> = 0" unfolding WeekDay_def by presburger
  finally have sun: "getDay z (Some w) = Some 0" by (simp add: getDay_def)
  have days: "0 \<le> Day ?tl - Day (LocalTime z w)" "Day ?tl - Day (LocalTime z w) \<le> 6"
    using wd dw by simp_all
  have mid: "TimeWithinDay (LocalTime z w) = 0
             \<and> 0 \<le> ?tl - LocalTime z w \<and> ?tl - LocalTime z w < 7 * msPerDay
             \<and> (offsetAtUTC z t = offsetAtUTC z w \<longrightarrow> 0 \<le> t - w \<and> t - w < 7 * msPerDay)"
    if m: "LocalTime z (UTC z (Day (LocalTime z w) * msPerDay)) = Day (LocalTime z w) * msPerDay"
  proof -
    have lw: "LocalTime z w = (Day ?tl - WeekDay ?tl) * msPerDay"
      using m unfolding dw w [symmetric] .
    have z0: "TimeWithinDay (LocalTime z w) = 0" unfolding lw by (rule TimeWithinDay_times)
    have "?tl - LocalTime z w = WeekDay ?tl * msPerDay + TimeWithinDay ?tl"
      unfolding lw using Day_decomp [of ?tl] by (simp add: algebra_simps)
    then have loc: "0 \<le> ?tl - LocalTime z w" "?tl - LocalTime z w < 7 * msPerDay"
      using wm tw by linarith+
    have "t - w = ?tl - LocalTime z w" if "offsetAtUTC z t = offsetAtUTC z w"
      using that by (simp add: LocalTime_def)
    with z0 loc show ?thesis by simp
  qed
  from d sun days mid
  show "\<exists>t. d = Some t
           \<and> getDay z (Some w) = Some 0
           \<and> 0 \<le> Day (LocalTime z t) - Day (LocalTime z w)
           \<and> Day (LocalTime z t) - Day (LocalTime z w) \<le> 6
           \<and> (LocalTime z (UTC z (Day (LocalTime z w) * msPerDay)) = Day (LocalTime z w) * msPerDay
                \<longrightarrow> TimeWithinDay (LocalTime z w) = 0
                  \<and> 0 \<le> LocalTime z t - LocalTime z w
                  \<and> LocalTime z t - LocalTime z w < 7 * msPerDay
                  \<and> (offsetAtUTC z t = offsetAtUTC z w
                       \<longrightarrow> 0 \<le> t - w \<and> t - w < 7 * msPerDay))" by blast
next
  fix t B
  assume a: "d = Some t \<and> offsetSpread z B
          \<and> - maxTime + 7 * msPerDay + 2 * B \<le> t \<and> t + 2 * B \<le> maxTime"
  then have "\<exists>w. getWeekStart z (Some t) = Some w" by (intro getWeekStart_valid [of z B]) simp_all
  with a show "getWeekStart z d \<noteq> None" by auto
qed

theorem getWeekStart_sunday_witness:
  "getWeekStart losAngeles2024 (Some 1730580000123) = Some 1730012400000
   \<and> getDay losAngeles2024 (Some 1730012400000) = Some 0
   \<and> Day (LocalTime losAngeles2024 1730580000123) - Day (LocalTime losAngeles2024 1730012400000) = 6
   \<and> TimeWithinDay (LocalTime losAngeles2024 1730012400000) = 0
   \<and> (0::int) \<le> 1730580000123 - 1730012400000
   \<and> (1730580000123::int) - 1730012400000 < 7 * msPerDay"
proof -
  have e: "getWeekStart losAngeles2024 (Some 1730580000123) = Some 1730012400000" by code_simp
  have s: "Day (LocalTime losAngeles2024 1730580000123)
           - Day (LocalTime losAngeles2024 1730012400000) = 6" by code_simp
  have o: "offsetAtUTC losAngeles2024 1730580000123 = offsetAtUTC losAngeles2024 1730012400000"
    by (simp add: losAngeles2024_def)
  have r: "offsetSpread losAngeles2024 3600000
         \<and> - maxTime + 7 * msPerDay + 2 * 3600000 \<le> 1730580000123
         \<and> (1730580000123::int) + 2 * 3600000 \<le> maxTime"
    by (simp add: offsetSpread_losAngeles2024 maxTime_def msPerDay_def)
  from getWeekStart_sunday [OF dayStable_losAngeles2024, of "Some 1730580000123"] e s o r
    LocalTime_UTC_losAngeles2024
  show ?thesis by auto
qed

subsection \<open>ISO date keys\<close>

lemma digit_cases: "n < 10 \<Longrightarrow> n \<in> {0, 1, 2, 3, 4, 5, 6, 7, 8, 9::nat}"
  by auto

lemma digitValue_digit: "n < 10 \<Longrightarrow> digitValue (digit n) = Some n"
  by (drule digit_cases) (auto simp: digit_def digitValue_def)

lemma digit_not_T: "n < 10 \<Longrightarrow> digit n \<noteq> CHR ''T''"
  by (drule digit_cases) (auto simp: digit_def)

lemma decimal_not_T: "c \<in> set (decimal n) \<Longrightarrow> c \<noteq> CHR ''T''"
proof (induction n rule: decimal.induct)
  case (1 n)
  show ?case
  proof (cases "n < 10")
    case True
    with "1.prems" digit_not_T [of n] show ?thesis by (auto simp: decimal.simps [of n])
  next
    case False
    with "1.prems" "1.IH" digit_not_T [of "n mod 10"] show ?thesis
      by (auto simp: decimal.simps [of n])
  qed
qed

lemma digitsValue_snoc:
  "digitsValue acc (cs @ [c]) =
     (case digitsValue acc cs of
        None \<Rightarrow> None
      | Some v \<Rightarrow> (case digitValue c of None \<Rightarrow> None | Some d \<Rightarrow> Some (10 * v + d)))"
  by (induction cs arbitrary: acc) (auto split: option.splits)

lemma digitsValue_decimal: "digitsValue 0 (decimal n) = Some n"
proof (induction n rule: decimal.induct)
  case (1 n)
  show ?case
  proof (cases "n < 10")
    case True
    then show ?thesis by (simp add: decimal.simps [of n] digitValue_digit)
  next
    case False
    then have "digitsValue 0 (decimal (n div 10)) = Some (n div 10)" by (rule "1.IH")
    with False show ?thesis
      by (simp add: decimal.simps [of n] digitsValue_snoc digitValue_digit)
  qed
qed

lemma digitsValue_zeros: "digitsValue 0 (replicate k (CHR ''0'') @ cs) = digitsValue 0 cs"
  by (induction k) (simp_all add: digitValue_def)

lemma digitsValue_padStart: "digitsValue 0 (padStart k (CHR ''0'') (decimal n)) = Some n"
  by (simp add: padStart_def digitsValue_zeros digitsValue_decimal)

lemma length_decimal: "0 < k \<Longrightarrow> n < 10 ^ k \<Longrightarrow> length (decimal n) \<le> k"
proof (induction n arbitrary: k rule: decimal.induct)
  case (1 n)
  show ?case
  proof (cases "n < 10")
    case True
    with "1.prems" show ?thesis by (simp add: decimal.simps [of n])
  next
    case False
    with "1.prems" have k: "1 < k" by (cases "k = 1") auto
    then obtain j where j: "k = Suc j" "0 < j" by (cases k) auto
    have "n div 10 < 10 ^ j" using "1.prems"(2) j by (simp add: less_mult_imp_div_less mult.commute)
    with "1.IH" [OF False j(2)] have "length (decimal (n div 10)) \<le> j" by simp
    with False j show ?thesis by (simp add: decimal.simps [of n])
  qed
qed

lemma length_padStart: "length s \<le> k \<Longrightarrow> length (padStart k c s) = k"
  by (simp add: padStart_def)

lemma padStart_not_T: "x \<in> set (padStart k (CHR ''0'') (decimal n)) \<Longrightarrow> x \<noteq> CHR ''T''"
  by (auto simp: padStart_def dest: decimal_not_T)

lemma length_pad2: "0 \<le> n \<Longrightarrow> n < 100 \<Longrightarrow> length (pad2 n) = 2"
  unfolding pad2_def by (intro length_padStart length_decimal) simp_all

lemma pad2_not_T: "x \<in> set (pad2 n) \<Longrightarrow> x \<noteq> CHR ''T''"
  unfolding pad2_def by (rule padStart_not_T)

lemma digitsValue_pad2: "0 \<le> n \<Longrightarrow> digitsValue 0 (pad2 n) = Some (nat n)"
  by (simp add: pad2_def digitsValue_padStart)

lemma isoYear_not_T: "x \<in> set (isoYear y) \<Longrightarrow> x \<noteq> CHR ''T''"
  by (auto simp: isoYear_def dest: padStart_not_T split: if_splits)

lemma length_isoYear_short: "0 \<le> y \<Longrightarrow> y \<le> 9999 \<Longrightarrow> length (isoYear y) = 4"
  unfolding isoYear_def by (simp, intro length_padStart length_decimal) simp_all

lemma length_isoYear_long:
  "\<not> (0 \<le> y \<and> y \<le> 9999) \<Longrightarrow> \<bar>y\<bar> \<le> 999999 \<Longrightarrow> length (isoYear y) = 7"
proof -
  assume a: "\<not> (0 \<le> y \<and> y \<le> 9999)" and b: "\<bar>y\<bar> \<le> 999999"
  have "length (padStart 6 (CHR ''0'') (decimal (nat \<bar>y\<bar>))) = 6"
    using b by (intro length_padStart length_decimal) simp_all
  with a show ?thesis by (auto simp add: isoYear_def)
qed


lemma isoDate_not_T: "x \<in> set (isoDate t) \<Longrightarrow> x \<noteq> CHR ''T''"
  by (auto simp: isoDate_def dest: isoYear_not_T pad2_not_T)

lemma split_T_0_isoDate: "split_T_0 (isoDate t @ CHR ''T'' # rest) = isoDate t"
proof -
  have "takeWhile (\<lambda>c. c \<noteq> CHR ''T'') (isoDate t @ CHR ''T'' # rest)
        = takeWhile (\<lambda>c. c \<noteq> CHR ''T'') (isoDate t)"
    by (rule takeWhile_tail) simp
  also have "\<dots> = isoDate t" using isoDate_not_T by (simp add: takeWhile_eq_all_conv)
  finally show ?thesis by (simp add: split_T_0_def)
qed

lemma toISOString_Some: "\<exists>rest. toISOString (Some t) = Inr (isoDate t @ CHR ''T'' # rest)"
  by (simp add: toISOString_def)

lemma periodKey_valid:
  assumes "getPeriodStart totalPeriod z startTime = Some b"
  shows "periodKey totalPeriod z startTime = Inr (isoDate b)"
proof -
  obtain rest where "toISOString (Some b) = Inr (isoDate b @ CHR ''T'' # rest)"
    using toISOString_Some by blast
  with assms show ?thesis by (simp add: periodKey_def split_T_0_isoDate)
qed

lemma dateOnly_fields:
  assumes "length mm = 2" and "length dd = 2"
    and "digitsValue 0 mm = Some m" and "digitsValue 0 dd = Some d"
    and "1 \<le> m" and "m \<le> 12" and "1 \<le> d"
    and "int d \<le> monthStart (int m) (if DaysInYear y = 366 then 1 else 0)
                 - monthStart (int m - 1) (if DaysInYear y = 366 then 1 else 0)"
  shows "dateOnly y (''-'' @ mm @ ''-'' @ dd)
         = TimeClip (MakeDate (MakeDay y (int m - 1) (int d)) 0)"
  using assms by (simp add: dateOnly_def nth_append)

lemma Date_parse_short:
  assumes "length ys = 4" and "length mm = 2" and "length dd = 2"
    and "digitsValue 0 ys = Some y"
  shows "Date_parse (ys @ ''-'' @ mm @ ''-'' @ dd) = dateOnly (int y) (''-'' @ mm @ ''-'' @ dd)"
  using assms by (simp add: Date_parse_def)

lemma Date_parse_long:
  assumes "length ys = 6" and "length mm = 2" and "length dd = 2"
    and "digitsValue 0 ys = Some y" and "sg = CHR ''+'' \<or> sg = CHR ''-''"
    and "sg = CHR ''-'' \<longrightarrow> y \<noteq> 0"
  shows "Date_parse (sg # ys @ ''-'' @ mm @ ''-'' @ dd)
         = dateOnly (if sg = CHR ''-'' then - int y else int y) (''-'' @ mm @ ''-'' @ dd)"
  using assms by (auto simp add: Date_parse_def)

lemma Day_range:
  assumes "- maxTime \<le> t" and "t \<le> maxTime"
  shows "- 100000000 \<le> Day t \<and> Day t \<le> 100000000"
proof -
  have "(- maxTime) div msPerDay \<le> t div msPerDay" using assms(1) by (intro zdiv_mono1) (simp_all add: msPerDay_def)
  moreover have "t div msPerDay \<le> maxTime div msPerDay" using assms(2) by (intro zdiv_mono1) (simp_all add: msPerDay_def)
  ultimately show ?thesis by (simp add: Day_def maxTime_def msPerDay_def)
qed

lemma YearFromTime_range:
  assumes "- maxTime \<le> t" and "t \<le> maxTime"
  shows "- 999999 \<le> YearFromTime t \<and> YearFromTime t \<le> 999999"
proof -
  let ?y = "YearFromTime t"
  have d: "- 100000000 \<le> Day t" "Day t \<le> 100000000" using Day_range [OF assms] by simp_all
  have br: "DayFromYear ?y \<le> Day t" "Day t < DayFromYear (?y + 1)"
    using YearFromDay_bracket [of "Day t"] by (simp_all add: YearFromTime_def)
  have a1: "146097 * (?y - 1970) - 506 \<le> 400 * DayFromYear ?y"
    using DayFromYear_approx [of ?y] by simp
  have a2: "400 * DayFromYear (?y + 1) \<le> 146097 * (?y + 1 - 1970) + 589"
    using DayFromYear_approx [of "?y + 1"] by simp
  have "?y \<le> 999999" using a1 br(1) d(2) by simp
  moreover have "- 999999 \<le> ?y" using a2 br(2) d(1) by simp
  ultimately show ?thesis by simp
qed

lemma MakeDay_roundtrip: "MakeDay (YearFromTime t) (MonthFromTime t) (DateFromTime t) = Day t"
  by (simp add: MakeDay_same_month)

lemma Date_parse_isoDate:
  assumes "- maxTime \<le> t" and "t \<le> maxTime"
  shows "Date_parse (isoDate t) = Some (Day t * msPerDay)"
proof -
  let ?Y = "YearFromTime t" and ?M = "MonthFromTime t" and ?D = "DateFromTime t"
  let ?mm = "pad2 (?M + 1)" and ?dd = "pad2 ?D"
  have M: "0 \<le> ?M" "?M \<le> 11" using MonthFromTime_range [of t] by simp_all
  have D: "1 \<le> ?D" "?D \<le> 31"
    "?D \<le> monthStart (?M + 1) (InLeapYear t) - monthStart ?M (InLeapYear t)"
    using DateFromTime_range [of t] DateFromTime_le_31 [of t] by simp_all
  have lm: "length ?mm = 2" using M by (intro length_pad2) simp_all
  have ld: "length ?dd = 2" using D by (intro length_pad2) simp_all
  have vm: "digitsValue 0 ?mm = Some (nat (?M + 1))" using M by (intro digitsValue_pad2) simp
  have vd: "digitsValue 0 ?dd = Some (nat ?D)" using D by (intro digitsValue_pad2) simp
  have leap: "(if DaysInYear ?Y = 366 then 1 else 0) = InLeapYear t" by (simp add: InLeapYear_def)
  have fields: "dateOnly ?Y (''-'' @ ?mm @ ''-'' @ ?dd)
                = TimeClip (MakeDate (MakeDay ?Y (int (nat (?M + 1)) - 1) (int (nat ?D))) 0)"
    using M D by (intro dateOnly_fields [OF lm ld vm vd]) (simp_all add: leap)
  have day: "MakeDay ?Y (int (nat (?M + 1)) - 1) (int (nat ?D)) = Day t"
    using M D MakeDay_roundtrip [of t] by simp
  have dr: "- 100000000 \<le> Day t" "Day t \<le> 100000000" using Day_range [OF assms] by simp_all
  have clip: "TimeClip (MakeDate (Day t) 0) = Some (Day t * msPerDay)"
    using dr by (simp add: TimeClip_def MakeDate_def maxTime_def msPerDay_def)
  have Yr: "- 999999 \<le> ?Y" "?Y \<le> 999999" using YearFromTime_range [OF assms] by simp_all
  show ?thesis
  proof (cases "0 \<le> ?Y \<and> ?Y \<le> 9999")
    case True
    have ly: "length (isoYear ?Y) = 4" using True by (intro length_isoYear_short) simp_all
    have vy: "digitsValue 0 (isoYear ?Y) = Some (nat ?Y)"
      using True by (simp add: isoYear_def digitsValue_padStart)
    have "Date_parse (isoYear ?Y @ ''-'' @ ?mm @ ''-'' @ ?dd)
          = dateOnly (int (nat ?Y)) (''-'' @ ?mm @ ''-'' @ ?dd)"
      by (rule Date_parse_short [OF ly lm ld vy])
    with True fields day clip show ?thesis by (simp add: isoDate_def)
  next
    case False
    let ?sg = "if ?Y < 0 then CHR ''-'' else CHR ''+''"
    let ?ys = "padStart 6 (CHR ''0'') (decimal (nat \<bar>?Y\<bar>))"
    have iy: "isoYear ?Y = ?sg # ?ys" using False by (auto simp add: isoYear_def)
    have "length (isoYear ?Y) = 7" using False Yr by (intro length_isoYear_long) simp_all
    then have ly: "length ?ys = 6" by (simp add: iy)
    have vy: "digitsValue 0 ?ys = Some (nat \<bar>?Y\<bar>)" by (rule digitsValue_padStart)
    have "Date_parse (?sg # ?ys @ ''-'' @ ?mm @ ''-'' @ ?dd)
          = dateOnly (if ?sg = CHR ''-'' then - int (nat \<bar>?Y\<bar>) else int (nat \<bar>?Y\<bar>))
              (''-'' @ ?mm @ ''-'' @ ?dd)"
      using False by (intro Date_parse_long [OF ly lm ld vy]) auto
    also have "(if ?sg = CHR ''-'' then - int (nat \<bar>?Y\<bar>) else int (nat \<bar>?Y\<bar>)) = ?Y"
      by simp
    finally show ?thesis using fields day clip by (simp add: isoDate_def iy)
  qed
qed

lemma isoDate_inj:
  assumes "- maxTime \<le> a" "a \<le> maxTime" "- maxTime \<le> b" "b \<le> maxTime"
    and "isoDate a = isoDate b"
  shows "Day a = Day b"
proof -
  have "Date_parse (isoDate a) = Some (Day a * msPerDay)"
    by (rule Date_parse_isoDate [OF assms(1,2)])
  moreover have "Date_parse (isoDate b) = Some (Day b * msPerDay)"
    by (rule Date_parse_isoDate [OF assms(3,4)])
  ultimately have "Day a * msPerDay = Day b * msPerDay" by (simp only: assms(5) option.inject)
  then show ?thesis by (simp add: msPerDay_def)
qed

lemma day_number:
  "Day t = DayFromYear (YearFromTime t) + monthStart (MonthFromTime t) (InLeapYear t)
           + DateFromTime t - 1"
  by (simp add: DateFromTime_def DayWithinYear_def)

text \<open>
  Claim C4. In a day-stable time zone, for every date \<open>d\<close>, the date that
  \<open>getBiweekStart d\<close> returns has day of month 1 when the day of \<open>d\<close> is at most 15 and 16
  otherwise, in the month and year of \<open>d\<close>; a date is returned for every \<open>d\<close> at least
  31 days plus twice the spread of the zone's offsets after the earliest time value
  and at least twice the spread before the latest. A timestamp on day 15 and one on
  day 16 of the same month get different biweekly group keys, in every such zone
  whose offsets spread by at most six days. A zone with one offset is day-stable and
  has spread 0.
\<close>

theorem getBiweekStart_day:
  assumes st: "dayStable z"
  shows "(\<forall>b. getBiweekStart z d = Some b \<longrightarrow>
      (\<exists>dd. getDate z d = Some dd
            \<and> getDate z (Some b) = Some (if dd \<le> 15 then 1 else 16)
            \<and> getMonth z (Some b) = getMonth z d
            \<and> getFullYear z (Some b) = getFullYear z d))
   \<and> (\<forall>t B. d = Some t \<and> offsetSpread z B
          \<and> - maxTime + 31 * msPerDay + 2 * B \<le> t \<and> t + 2 * B \<le> maxTime \<longrightarrow>
          getBiweekStart z d \<noteq> None)
   \<and> (\<forall>d' k k' B. offsetSpread z B \<and> B \<le> 6 * msPerDay
          \<and> periodKey ''biweekly'' z d = Inr k \<and> periodKey ''biweekly'' z d' = Inr k'
          \<and> getFullYear z d' = getFullYear z d \<and> getMonth z d' = getMonth z d
          \<and> getDate z d = Some 15 \<and> getDate z d' = Some 16
        \<longrightarrow> k \<noteq> k')"
proof (intro conjI allI impI)
  fix b
  assume "getBiweekStart z d = Some b"
  from getBiweekStart_SomeD [OF st this] obtain t where d: "d = Some t"
    and b: "Day (LocalTime z b) = Day (LocalTime z t)
                + ((if DateFromTime (LocalTime z t) \<le> 15 then 1 else 16)
                   - DateFromTime (LocalTime z t))" by blast
  let ?p = "if DateFromTime (LocalTime z t) \<le> 15 then 1 else 16 :: int"
  have p: "1 \<le> ?p" "?p \<le> 28" by simp_all
  have "Day (LocalTime z b) = Day (LocalTime z t) - DateFromTime (LocalTime z t) + ?p"
    using b by simp
  note c = same_month [OF this p]
  show "\<exists>dd. getDate z d = Some dd
            \<and> getDate z (Some b) = Some (if dd \<le> 15 then 1 else 16)
            \<and> getMonth z (Some b) = getMonth z d
            \<and> getFullYear z (Some b) = getFullYear z d"
    unfolding d using c by (simp add: getDate_def getMonth_def getFullYear_def)
next
  fix t B
  assume a: "d = Some t \<and> offsetSpread z B
          \<and> - maxTime + 31 * msPerDay + 2 * B \<le> t \<and> t + 2 * B \<le> maxTime"
  then have "\<exists>b. getPeriodStart ''biweekly'' z (Some t) = Some b \<and> - maxTime \<le> b \<and> b \<le> maxTime"
    by (intro getPeriodStart_valid [of z B]) simp_all
  with a show "getBiweekStart z d \<noteq> None" by (auto simp: getPeriodStart_def)
next
  fix d' k k' B
  assume a: "offsetSpread z B \<and> B \<le> 6 * msPerDay
          \<and> periodKey ''biweekly'' z d = Inr k \<and> periodKey ''biweekly'' z d' = Inr k'
          \<and> getFullYear z d' = getFullYear z d \<and> getMonth z d' = getMonth z d
          \<and> getDate z d = Some 15 \<and> getDate z d' = Some 16"
  have key: "\<exists>b. getBiweekStart z x = Some b \<and> kx = isoDate b \<and> - maxTime \<le> b \<and> b \<le> maxTime"
    if "periodKey ''biweekly'' z x = Inr kx" for x kx
  proof (cases "getBiweekStart z x")
    case None
    with that show ?thesis by (simp add: periodKey_def getPeriodStart_def toISOString_def)
  next
    case (Some b)
    then have g: "getPeriodStart ''biweekly'' z x = Some b" by (simp add: getPeriodStart_def)
    from periodKey_valid [OF g] getPeriodStart_SomeD [OF g] that Some show ?thesis by simp
  qed
  from a key [of d k] obtain c where c: "getBiweekStart z d = Some c" "k = isoDate c"
    "- maxTime \<le> c" "c \<le> maxTime" by blast
  from a key [of d' k'] obtain c' where c': "getBiweekStart z d' = Some c'" "k' = isoDate c'"
    "- maxTime \<le> c'" "c' \<le> maxTime" by blast
  from getBiweekStart_SomeD [OF st c(1)] obtain t where t: "d = Some t"
    "Day (LocalTime z c) = Day (LocalTime z t)
         + ((if DateFromTime (LocalTime z t) \<le> 15 then 1 else 16)
            - DateFromTime (LocalTime z t))" by blast
  from getBiweekStart_SomeD [OF st c'(1)] obtain t' where t': "d' = Some t'"
    "Day (LocalTime z c') = Day (LocalTime z t')
         + ((if DateFromTime (LocalTime z t') \<le> 15 then 1 else 16)
            - DateFromTime (LocalTime z t'))" by blast
  let ?tl = "LocalTime z t" and ?tl' = "LocalTime z t'"
  from a have Y: "YearFromTime ?tl' = YearFromTime ?tl" and M: "MonthFromTime ?tl' = MonthFromTime ?tl"
    and D: "DateFromTime ?tl = 15" and D': "DateFromTime ?tl' = 16"
    unfolding t(1) t'(1) by (simp_all add: getFullYear_def getMonth_def getDate_def)
  have l: "InLeapYear ?tl' = InLeapYear ?tl" using Y by (simp add: InLeapYear_def)
  have days: "Day ?tl' = Day ?tl + 1"
    using day_number [of ?tl] day_number [of ?tl'] Y M D D' l by simp
  have apart: "Day (LocalTime z c') = Day (LocalTime z c) + 15"
    using t(2) t'(2) D D' days by simp
  define m where "m = Day (LocalTime z c) * msPerDay"
  have "Day (LocalTime z c') * msPerDay = m + 15 * msPerDay"
    unfolding apart m_def by (simp add: algebra_simps)
  with Day_decomp [of "LocalTime z c'"] TimeWithinDay_bounds [of "LocalTime z c'"]
  have far: "m + 15 * msPerDay \<le> LocalTime z c'" by linarith
  from Day_decomp [of "LocalTime z c"] TimeWithinDay_bounds [of "LocalTime z c"]
  have near: "LocalTime z c < m + msPerDay" unfolding m_def by linarith
  from a have "\<bar>offsetAtUTC z c - offsetAtLocal z 0\<bar> \<le> B" "\<bar>offsetAtUTC z c' - offsetAtLocal z 0\<bar> \<le> B"
    by (simp_all add: offsetSpread_def)
  then have off: "offsetAtUTC z c' - offsetAtUTC z c \<le> 2 * B" by linarith
  have B: "2 * B \<le> 12 * msPerDay" using a by simp
  have gap: "c + 2 * msPerDay < c'"
    using far near off B unfolding LocalTime_def by linarith
  define n where "n = Day c * msPerDay"
  have "c < n + msPerDay" unfolding n_def
    using Day_decomp [of c] TimeWithinDay_bounds [of c] by linarith
  moreover have "Day c = Day c' \<Longrightarrow> n \<le> c'" unfolding n_def
    using Day_decomp [of c'] TimeWithinDay_bounds [of c'] by simp
  moreover have "Day c = Day c' \<Longrightarrow> c' < n + msPerDay" unfolding n_def
    using Day_decomp [of c'] TimeWithinDay_bounds [of c'] by simp
  moreover have "n \<le> c" unfolding n_def
    using Day_decomp [of c] TimeWithinDay_bounds [of c] by linarith
  ultimately have ne: "Day c \<noteq> Day c'" using gap by (auto simp: msPerDay_def)
  have "isoDate c \<noteq> isoDate c'"
    using isoDate_inj [of c c'] c(3,4) c'(3,4) ne by blast
  then show "k \<noteq> k'" unfolding c(2) c'(2) .
qed

theorem getBiweekStart_day_witness:
  "getBiweekStart losAngeles2024 (Some 1731743940000) = Some 1730444400000
   \<and> getDate losAngeles2024 (Some 1731743940000) = Some 15
   \<and> getDate losAngeles2024 (Some 1730444400000) = Some 1
   \<and> getMonth losAngeles2024 (Some 1730444400000) = getMonth losAngeles2024 (Some 1731743940000)
   \<and> getFullYear losAngeles2024 (Some 1730444400000)
       = getFullYear losAngeles2024 (Some 1731743940000)
   \<and> periodKey ''biweekly'' losAngeles2024 (Some 1731743940000) = Inr ''2024-11-01''
   \<and> periodKey ''biweekly'' losAngeles2024 (Some 1731744060000) = Inr ''2024-11-16''
   \<and> ''2024-11-01'' \<noteq> ''2024-11-16''"
proof -
  have e: "getBiweekStart losAngeles2024 (Some 1731743940000) = Some 1730444400000" by code_simp
  have k: "periodKey ''biweekly'' losAngeles2024 (Some 1731743940000) = Inr ''2024-11-01''"
    "periodKey ''biweekly'' losAngeles2024 (Some 1731744060000) = Inr ''2024-11-16''"
    by code_simp+
  have h: "getFullYear losAngeles2024 (Some 1731744060000)
             = getFullYear losAngeles2024 (Some 1731743940000)
         \<and> getMonth losAngeles2024 (Some 1731744060000)
             = getMonth losAngeles2024 (Some 1731743940000)
         \<and> getDate losAngeles2024 (Some 1731743940000) = Some 15
         \<and> getDate losAngeles2024 (Some 1731744060000) = Some 16"
    by code_simp
  have r: "offsetSpread losAngeles2024 3600000 \<and> (3600000::int) \<le> 6 * msPerDay
         \<and> - maxTime + 31 * msPerDay + 2 * 3600000 \<le> 1731743940000
         \<and> (1731743940000::int) + 2 * 3600000 \<le> maxTime"
    by (simp add: offsetSpread_losAngeles2024 maxTime_def msPerDay_def)
  from getBiweekStart_day [OF dayStable_losAngeles2024, of "Some 1731743940000"] e k h r
  show ?thesis by auto
qed

subsection \<open>SessionLifecycle\<close>

lemma find_open_None:
  "\<forall>s \<in> set docs. end_time s \<noteq> None \<Longrightarrow> find (\<lambda>s. end_time s = None) docs = None"
  by (induction docs) auto

lemma find_open_Some:
  "s \<in> set docs \<Longrightarrow> end_time s = None \<Longrightarrow> find (\<lambda>s. end_time s = None) docs \<noteq> None"
  by (induction docs) auto

text \<open>
  Claim C7. \<open>stopTracking\<close> called when no session of the current snapshot lacks
  \<open>end_time\<close> changes nothing: the store, the snapshot, the tracking flag and the error
  message are what they were.
\<close>

theorem stopTracking_idle_noop:
  "\<forall>s \<in> set (snapshot st). end_time s \<noteq> None \<Longrightarrow> stopTracking now outcome st = st"
  by (simp add: stopTracking_def find_open_None)

theorem stopTracking_idle_noop_witness:
  "stopTracking 120000 Committed
     \<lparr>store = [\<lparr>doc_id = ''a'', start_time = Some 0, end_time = Some 60000,
                duration = Some 1, jobName = utf16 ''job''\<rparr>],
      db_ready = True,
      snapshot = [\<lparr>doc_id = ''a'', start_time = Some 0, end_time = Some 60000,
                   duration = Some 1, jobName = utf16 ''job''\<rparr>],
      isTracking = False, jobInput = [], error_msg = None\<rparr>
   = \<lparr>store = [\<lparr>doc_id = ''a'', start_time = Some 0, end_time = Some 60000,
                  duration = Some 1, jobName = utf16 ''job''\<rparr>],
      db_ready = True,
      snapshot = [\<lparr>doc_id = ''a'', start_time = Some 0, end_time = Some 60000,
                   duration = Some 1, jobName = utf16 ''job''\<rparr>],
      isTracking = False, jobInput = [], error_msg = None\<rparr>"
  by (rule stopTracking_idle_noop) simp

lemma Math_round_minutes:
  "60000 * Math_round (of_int ms / (1000 * 60)) - 30000 \<le> ms
   \<and> ms < 60000 * Math_round (of_int ms / (1000 * 60)) + 30000"
proof -
  define x :: rat where "x = of_int ms / (1000 * 60)"
  define n where "n = Math_round x"
  have ms: "of_int ms = 60000 * x" by (simp add: x_def)
  have lo: "of_int n \<le> x + 1 / 2" unfolding n_def Math_round_def by (rule of_int_floor_le)
  have hi: "x + 1 / 2 < of_int n + 1" unfolding n_def Math_round_def by linarith
  have "(of_int (60000 * n - 30000) :: rat) \<le> of_int ms" using lo ms by simp
  then have a: "60000 * n - 30000 \<le> ms" by (simp only: of_int_le_iff)
  have "(of_int ms :: rat) < of_int (60000 * n + 30000)" using hi ms by simp
  then have b: "ms < 60000 * n + 30000" by (simp only: of_int_less_iff)
  from a b show ?thesis by (simp add: n_def x_def)
qed

text \<open>
  Claim C8. When \<open>stopTracking\<close> finds an open session \<open>a\<close> in the snapshot and the write
  is committed, the document of \<open>a\<close> gets \<open>end_time = now\<close> and \<open>duration = n\<close>, where \<open>n\<close>
  is the whole number of minutes nearest to \<open>now - start_time a\<close>, a half rounding up:
  \<open>n - 1/2 \<le> (now - start_time a) / 60000 < n + 1/2\<close>.
\<close>

theorem stopTracking_duration:
  assumes "db_ready st"
    and "find (\<lambda>s. end_time s = None) (snapshot st) = Some a"
    and "start_time a = Some t0"
    and "doc_id a \<in> doc_id ` set (store st)"
  shows "\<exists>n. store (stopTracking now Committed st) =
               map (\<lambda>s. if doc_id s = doc_id a
                        then s\<lparr>end_time := Some now, duration := Some n\<rparr> else s) (store st)
             \<and> 60000 * n - 30000 \<le> now - t0 \<and> now - t0 < 60000 * n + 30000"
proof -
  let ?n = "Math_round (of_int (now - t0) / (1000 * 60))"
  have "store (stopTracking now Committed st) =
          map (\<lambda>s. if doc_id s = doc_id a
                   then s\<lparr>end_time := Some now, duration := Some ?n\<rparr> else s) (store st)"
    using assms by (simp add: stopTracking_def updateDoc_def Let_def)
  with Math_round_minutes [of "now - t0"] show ?thesis by blast
qed

theorem stopTracking_duration_witness:
  "\<exists>n. store (stopTracking 90000 Committed
           \<lparr>store = [\<lparr>doc_id = ''a'', start_time = Some 0, end_time = None,
                      duration = None, jobName = utf16 ''job''\<rparr>],
            db_ready = True,
            snapshot = [\<lparr>doc_id = ''a'', start_time = Some 0, end_time = None,
                         duration = None, jobName = utf16 ''job''\<rparr>],
            isTracking = True, jobInput = utf16 ''job'', error_msg = None\<rparr>)
        = [\<lparr>doc_id = ''a'', start_time = Some 0, end_time = Some 90000,
             duration = Some n, jobName = utf16 ''job''\<rparr>]
      \<and> n = 2"
proof -
  let ?a = "\<lparr>doc_id = ''a'', start_time = Some (0::int), end_time = None,
             duration = None, jobName = utf16 ''job''\<rparr>"
  let ?st = "\<lparr>store = [?a], db_ready = True, snapshot = [?a],
              isTracking = True, jobInput = utf16 ''job'', error_msg = None\<rparr>"
  obtain n where s: "store (stopTracking 90000 Committed ?st) =
               map (\<lambda>s. if doc_id s = doc_id ?a
                        then s\<lparr>end_time := Some 90000, duration := Some n\<rparr> else s) (store ?st)"
     and lo: "60000 * n - 30000 \<le> 90000 - 0" and hi: "90000 - 0 < 60000 * n + 30000"
    using stopTracking_duration [of ?st ?a 0 90000] by auto
  from lo hi have "n = 2" by simp
  with s show ?thesis by simp
qed

lemma length_openSessions_map:
  "length (openSessions (map (\<lambda>s. if doc_id s = i
              then s\<lparr>end_time := Some now, duration := d\<rparr> else s) docs))
   \<le> length (openSessions docs)"
  by (induction docs) (auto simp: openSessions_def)

lemma stopTracking_ids: "map doc_id (store (stopTracking now outcome st)) = map doc_id (store st)"
  by (auto simp: stopTracking_def updateDoc_def Let_def comp_def
      split: option.splits write_result.splits if_splits intro!: map_cong)

lemma stopTracking_open:
  "length (openSessions (store (stopTracking now outcome st))) \<le> length (openSessions (store st))"
  by (auto simp: stopTracking_def updateDoc_def Let_def length_openSessions_map
      split: option.splits write_result.splits if_splits)

lemma isTracking_onSnapshot:
  assumes "s \<in> set (store st)" and "end_time s = None" and "start_time s \<noteq> None"
  shows "isTracking (onSnapshot c st)"
proof -
  have "s \<in> set (orderBy_start_time_desc (store st))"
    using assms by (simp add: orderBy_start_time_desc_def)
  from find_open_Some [OF this assms(2)] show ?thesis
    by (simp add: onSnapshot_def Let_def)
qed

lemma store_onSnapshot: "store (onSnapshot c st) = store st"
  by (simp add: onSnapshot_def Let_def)

text \<open>
  Claim C1, as stated: a start while some session lacks \<open>end_time\<close> creates no session.
  It fails for two clicks in a row. The button consults \<open>isTracking\<close>, which only the
  listener sets; \<open>startTracking\<close> checks nothing. From the idle state with an empty
  store, the first click starts session \<open>a\<close>; before the listener has delivered the
  snapshot with \<open>a\<close>, \<open>isTracking\<close> is still false, so the second click starts \<open>b\<close>, and
  two sessions lack \<open>end_time\<close>.
\<close>

theorem onClick_twice_counterexample:
  "isTracking (onClick 0 ''a'' Committed
      \<lparr>store = [], db_ready = True, snapshot = [], isTracking = False,
       jobInput = utf16 ''job'', error_msg = None\<rparr>) = False
   \<and> openSessions (store (onClick 0 ''a'' Committed
      \<lparr>store = [], db_ready = True, snapshot = [], isTracking = False,
       jobInput = utf16 ''job'', error_msg = None\<rparr>))
     = [\<lparr>doc_id = ''a'', start_time = Some 0, end_time = None,
          duration = None, jobName = utf16 ''job''\<rparr>]
   \<and> openSessions (store (onClick 500 ''b'' Committed (onClick 0 ''a'' Committed
      \<lparr>store = [], db_ready = True, snapshot = [], isTracking = False,
       jobInput = utf16 ''job'', error_msg = None\<rparr>)))
     = [\<lparr>doc_id = ''a'', start_time = Some 0, end_time = None,
          duration = None, jobName = utf16 ''job''\<rparr>,
        \<lparr>doc_id = ''b'', start_time = Some 500, end_time = None,
          duration = None, jobName = utf16 ''job''\<rparr>]"
  by (simp add: onClick_def startTracking_def openSessions_def trim_def is_whitespace_def
      utf16_def)

text \<open>
  Claim C1, amended. The gate is the start/stop button, and it closes when the
  listener delivers a snapshot. After a snapshot of a store in which some session that
  has a \<open>start_time\<close> lacks \<open>end_time\<close>, \<open>isTracking\<close> is true and a click runs
  \<open>stopTracking\<close>, not \<open>startTracking\<close>: the store holds the same documents as before,
  and no more of them lack \<open>end_time\<close> than before. A click made before that snapshot is
  not covered.
\<close>

theorem onClick_active_no_new_session:
  assumes "s \<in> set (store st)" and "end_time s = None" and "start_time s \<noteq> None"
  shows "isTracking (onSnapshot c st)
       \<and> onClick now newId outcome (onSnapshot c st) = stopTracking now outcome (onSnapshot c st)
       \<and> map doc_id (store (onClick now newId outcome (onSnapshot c st))) = map doc_id (store st)
       \<and> length (openSessions (store (onClick now newId outcome (onSnapshot c st))))
           \<le> length (openSessions (store st))"
  using isTracking_onSnapshot [OF assms, of c]
    stopTracking_ids [of now outcome "onSnapshot c st"]
    stopTracking_open [of now outcome "onSnapshot c st"]
  by (simp add: onClick_def store_onSnapshot)

theorem onClick_active_no_new_session_witness:
  "isTracking (onSnapshot False
      \<lparr>store = [\<lparr>doc_id = ''a'', start_time = Some 0, end_time = None,
                 duration = None, jobName = utf16 ''job''\<rparr>],
       db_ready = True, snapshot = [], isTracking = False, jobInput = utf16 ''job'',
       error_msg = None\<rparr>)
   \<and> map doc_id (store (onClick 60000 ''b'' Committed (onSnapshot False
      \<lparr>store = [\<lparr>doc_id = ''a'', start_time = Some 0, end_time = None,
                 duration = None, jobName = utf16 ''job''\<rparr>],
       db_ready = True, snapshot = [], isTracking = False, jobInput = utf16 ''job'',
       error_msg = None\<rparr>))) = [''a'']
   \<and> length (openSessions (store (onClick 60000 ''b'' Committed (onSnapshot False
      \<lparr>store = [\<lparr>doc_id = ''a'', start_time = Some 0, end_time = None,
                 duration = None, jobName = utf16 ''job''\<rparr>],
       db_ready = True, snapshot = [], isTracking = False, jobInput = utf16 ''job'',
       error_msg = None\<rparr>)))) \<le> 1"
proof -
  let ?a = "\<lparr>doc_id = ''a'', start_time = Some 0, end_time = None,
             duration = None, jobName = utf16 ''job''\<rparr>"
  let ?st = "\<lparr>store = [?a], db_ready = True, snapshot = [], isTracking = False,
              jobInput = utf16 ''job'', error_msg = None\<rparr>"
  have h: "?a \<in> set (store ?st)" "end_time ?a = None" "start_time ?a \<noteq> None" by simp_all
  have e: "map doc_id (store ?st) = [''a'']" "length (openSessions (store ?st)) = 1"
    by (simp_all add: openSessions_def)
  from onClick_active_no_new_session [OF h, of False 60000 "''b''" Committed]
  show ?thesis unfolding e by blast
qed

subsection \<open>SessionAggregator\<close>

text \<open>
  Claim C6. For an empty session list the totals calculation returns the empty object
  whatever the grouping mode; its two readers take that as no group to render and a
  grand total of zero.
\<close>

theorem groupedSessions_empty:
  "groupedSessions totalPeriod z [] = Inr EmptyObject
   \<and> renderedGroups EmptyObject = []
   \<and> totalMinutesAcrossAllPeriods EmptyObject = 0"
  by (simp add: groupedSessions_def renderedGroups_def totalMinutesAcrossAllPeriods_def
      sortedGroups_def totalDurationMinutes_def)

lemma modify_absent: "k \<notin> fst ` set groups \<Longrightarrow> modify k f groups = groups"
  by (induction groups) (auto simp: modify_def)

lemma modify_snoc: "modify k f (groups @ [(k, g)]) = modify k f groups @ [(k, f g)]"
  by (simp add: modify_def)

lemma modify_modify: "modify k f (modify k h groups) = modify k (f \<circ> h) groups"
  by (induction groups) (auto simp: modify_def)

lemma map_fst_modify: "map fst (modify k f groups) = map fst groups"
  by (induction groups) (auto simp: modify_def)

lemma set_modify:
  "(k', g') \<in> set (modify k f groups)
   \<longleftrightarrow> (k' \<noteq> k \<and> (k', g') \<in> set groups) \<or> (k' = k \<and> (\<exists>g. (k, g) \<in> set groups \<and> g' = f g))"
  by (induction groups) (auto simp: modify_def split: if_splits)

lemma map_of_None_iff: "map_of groups k = None \<longleftrightarrow> k \<notin> fst ` set groups"
  by (simp add: map_of_eq_None_iff)

lemma visit_open: "duration s = None \<Longrightarrow> visit totalPeriod z s acc = Inr acc"
  by (cases acc) (simp add: visit_def)

lemma visit_new_group:
  assumes "duration s = Some dur" and "getPeriodStart totalPeriod z (start_time s) = Some b"
    and "isoDate b \<notin> fst ` set groups"
  shows "visit totalPeriod z s (groups, tot)
         = Inr (groups @ [(isoDate b, \<lparr>start = Some b, sessions = [s], totalMinutes = dur\<rparr>)],
                tot + dur)"
proof -
  obtain rest where iso: "toISOString (Some b) = Inr (isoDate b @ CHR ''T'' # rest)"
    using toISOString_Some by blast
  have m: "map_of groups (isoDate b) = None" using assms(3) by (simp add: map_of_None_iff)
  show ?thesis
    using assms(1,2) iso m
    by (simp add: visit_def Let_def split_T_0_isoDate modify_snoc modify_absent [OF assms(3)])
qed

lemma visit_old_group:
  assumes "duration s = Some dur" and "getPeriodStart totalPeriod z (start_time s) = Some b"
    and "isoDate b \<in> fst ` set groups"
  shows "visit totalPeriod z s (groups, tot)
         = Inr (modify (isoDate b)
                  (\<lambda>g. g\<lparr>sessions := sessions g @ [s], totalMinutes := totalMinutes g + dur\<rparr>) groups,
                tot + dur)"
proof -
  obtain rest where iso: "toISOString (Some b) = Inr (isoDate b @ CHR ''T'' # rest)"
    using toISOString_Some by blast
  obtain g0 where m: "map_of groups (isoDate b) = Some g0"
    using assms(3) map_of_None_iff [of groups "isoDate b"] by auto
  have c: "(\<lambda>g. g\<lparr>totalMinutes := totalMinutes g + dur\<rparr>) \<circ> (\<lambda>g. g\<lparr>sessions := sessions g @ [s]\<rparr>)
           = (\<lambda>g. g\<lparr>sessions := sessions g @ [s], totalMinutes := totalMinutes g + dur\<rparr>)"
    by (simp add: fun_eq_iff)
  show ?thesis
    using assms(1,2) iso m
    by (simp add: visit_def Let_def split_T_0_isoDate modify_modify c)
qed


lemma groups_invI:
  assumes "distinct (map fst groups)"
    and "\<And>k g. (k, g) \<in> set groups \<Longrightarrow>
            sessions g = filter (\<lambda>s. duration s \<noteq> None
                                  \<and> periodKey totalPeriod z (start_time s) = Inr k) seen
            \<and> totalMinutes g = sum_list (map minutesOf (sessions g))
            \<and> (\<exists>b. start g = Some b \<and> isoDate b = k \<and> - maxTime \<le> b \<and> b \<le> maxTime)"
    and "\<And>s. s \<in> set seen \<Longrightarrow> duration s \<noteq> None \<Longrightarrow>
            \<exists>k \<in> fst ` set groups. periodKey totalPeriod z (start_time s) = Inr k"
    and "tot = sum_list (map minutesOf (filter (\<lambda>s. duration s \<noteq> None) seen))"
  shows "groups_inv totalPeriod z seen (groups, tot)"
  using assms unfolding groups_inv_def by auto

lemma groups_invD:
  assumes "groups_inv totalPeriod z seen (groups, tot)"
  shows "distinct (map fst groups)"
    and "\<And>k g. (k, g) \<in> set groups \<Longrightarrow>
            sessions g = filter (\<lambda>s. duration s \<noteq> None
                                  \<and> periodKey totalPeriod z (start_time s) = Inr k) seen"
    and "\<And>k g. (k, g) \<in> set groups \<Longrightarrow> totalMinutes g = sum_list (map minutesOf (sessions g))"
    and "\<And>k g. (k, g) \<in> set groups \<Longrightarrow>
            \<exists>b. start g = Some b \<and> isoDate b = k \<and> - maxTime \<le> b \<and> b \<le> maxTime"
    and "\<And>s. s \<in> set seen \<Longrightarrow> duration s \<noteq> None \<Longrightarrow>
            \<exists>k \<in> fst ` set groups. periodKey totalPeriod z (start_time s) = Inr k"
    and "tot = sum_list (map minutesOf (filter (\<lambda>s. duration s \<noteq> None) seen))"
  using assms unfolding groups_inv_def by auto

lemma visit_Inr_start:
  assumes "duration s = Some dur" and "visit totalPeriod z s acc = Inr acc'"
  shows "\<exists>b. getPeriodStart totalPeriod z (start_time s) = Some b"
proof (cases "getPeriodStart totalPeriod z (start_time s)")
  case None
  with assms show ?thesis by (cases acc) (simp add: visit_def Let_def toISOString_def)
next
  case (Some b)
  then show ?thesis by blast
qed

lemma visit_returns:
  assumes sp: "offsetSpread z B" and "duration s \<noteq> None \<longrightarrow>
             (\<exists>t. start_time s = Some t \<and> - maxTime + 31 * msPerDay + 2 * B \<le> t \<and> t + 2 * B \<le> maxTime)"
  shows "\<exists>acc'. visit totalPeriod z s acc = Inr acc'"
proof (cases "duration s")
  case None
  then show ?thesis by (simp add: visit_open)
next
  case (Some dur)
  obtain groups tot where acc: "acc = (groups, tot)" by (cases acc)
  from assms Some obtain t where t: "start_time s = Some t"
    "- maxTime + 31 * msPerDay + 2 * B \<le> t" "t + 2 * B \<le> maxTime" by auto
  obtain b where b: "getPeriodStart totalPeriod z (start_time s) = Some b"
    using getPeriodStart_valid [OF sp t(2,3)] t(1) by auto
  show ?thesis
    unfolding acc
    using visit_new_group [OF Some b, of groups tot] visit_old_group [OF Some b, of groups tot]
    by (cases "isoDate b \<in> fst ` set groups") simp_all
qed

lemma visit_inv:
  assumes inv: "groups_inv totalPeriod z seen (groups, tot)"
    and ret: "visit totalPeriod z s (groups, tot) = Inr acc'"
  shows "groups_inv totalPeriod z (seen @ [s]) acc'"
proof (cases "duration s")
  case None
  note d = groups_invD [OF inv]
  have "groups_inv totalPeriod z (seen @ [s]) (groups, tot)"
  proof (rule groups_invI)
    show "distinct (map fst groups)" by (rule d(1))
    show "tot = sum_list (map minutesOf (filter (\<lambda>s. duration s \<noteq> None) (seen @ [s])))"
      using d(6) None by simp
    show "\<exists>k \<in> fst ` set groups. periodKey totalPeriod z (start_time x) = Inr k"
      if "x \<in> set (seen @ [s])" "duration x \<noteq> None" for x
      using that None d(5) [of x] by auto
    show "sessions g = filter (\<lambda>s. duration s \<noteq> None
                                  \<and> periodKey totalPeriod z (start_time s) = Inr k) (seen @ [s])
            \<and> totalMinutes g = sum_list (map minutesOf (sessions g))
            \<and> (\<exists>b. start g = Some b \<and> isoDate b = k \<and> - maxTime \<le> b \<and> b \<le> maxTime)"
      if "(k, g) \<in> set groups" for k g
      using d(2,3,4) [OF that] None by simp
  qed
  with visit_open [OF None, of totalPeriod z "(groups, tot)"] ret show ?thesis by simp
next
  case (Some dur)
  note d = groups_invD [OF inv]
  obtain b where b1: "getPeriodStart totalPeriod z (start_time s) = Some b"
    using visit_Inr_start [OF Some ret] by blast
  from getPeriodStart_SomeD [OF b1] have b2: "- maxTime \<le> b" "b \<le> maxTime" by simp_all
  note b = b1 b2
  let ?k = "isoDate b"
  have key: "periodKey totalPeriod z (start_time s) = Inr ?k" by (rule periodKey_valid [OF b(1)])
  have tot': "tot + dur = sum_list (map minutesOf (filter (\<lambda>s. duration s \<noteq> None) (seen @ [s])))"
    using d(6) Some by simp
  show ?thesis
  proof (cases "?k \<in> fst ` set groups")
    case False
    let ?G = "\<lparr>start = Some b, sessions = [s], totalMinutes = dur\<rparr>"
    have none_before: "filter (\<lambda>s. duration s \<noteq> None
                          \<and> periodKey totalPeriod z (start_time s) = Inr ?k) seen = []"
    proof -
      have "\<not> (duration x \<noteq> None \<and> periodKey totalPeriod z (start_time x) = Inr ?k)"
        if "x \<in> set seen" for x
      proof
        assume a: "duration x \<noteq> None \<and> periodKey totalPeriod z (start_time x) = Inr ?k"
        with d(5) [OF that] obtain k where "k \<in> fst ` set groups"
          "periodKey totalPeriod z (start_time x) = Inr k" by blast
        with a False show False by simp
      qed
      then show ?thesis by (simp add: filter_empty_conv)
    qed
    have "groups_inv totalPeriod z (seen @ [s]) (groups @ [(?k, ?G)], tot + dur)"
    proof (rule groups_invI)
      show "distinct (map fst (groups @ [(?k, ?G)]))" using d(1) False by simp
      show "tot + dur = sum_list (map minutesOf (filter (\<lambda>s. duration s \<noteq> None) (seen @ [s])))"
        by (rule tot')
      show "\<exists>k \<in> fst ` set (groups @ [(?k, ?G)]). periodKey totalPeriod z (start_time x) = Inr k"
        if "x \<in> set (seen @ [s])" "duration x \<noteq> None" for x
        using that key d(5) [of x] by auto
      show "sessions g = filter (\<lambda>s. duration s \<noteq> None
                                  \<and> periodKey totalPeriod z (start_time s) = Inr k) (seen @ [s])
            \<and> totalMinutes g = sum_list (map minutesOf (sessions g))
            \<and> (\<exists>b. start g = Some b \<and> isoDate b = k \<and> - maxTime \<le> b \<and> b \<le> maxTime)"
        if kg: "(k, g) \<in> set (groups @ [(?k, ?G)])" for k g
      proof (cases "(k, g) \<in> set groups")
        case True
        then have "k \<noteq> ?k" using False by force
        with d(2,3,4) [OF True] key show ?thesis by simp
      next
        case False
        with kg have "k = ?k" "g = ?G" by simp_all
        with none_before key Some b(2,3) show ?thesis by simp
      qed
    qed
    with visit_new_group [OF Some b(1) False, of tot] ret show ?thesis by simp
  next
    case True
    let ?F = "\<lambda>g. g\<lparr>sessions := sessions g @ [s], totalMinutes := totalMinutes g + dur\<rparr>"
    have "groups_inv totalPeriod z (seen @ [s]) (modify ?k ?F groups, tot + dur)"
    proof (rule groups_invI)
      show "distinct (map fst (modify ?k ?F groups))" using d(1) by (simp add: map_fst_modify)
      show "tot + dur = sum_list (map minutesOf (filter (\<lambda>s. duration s \<noteq> None) (seen @ [s])))"
        by (rule tot')
      have keys: "fst ` set (modify ?k ?F groups) = fst ` set groups"
        using map_fst_modify [of ?k ?F groups] by (metis set_map)
      show "\<exists>k \<in> fst ` set (modify ?k ?F groups). periodKey totalPeriod z (start_time x) = Inr k"
        if "x \<in> set (seen @ [s])" "duration x \<noteq> None" for x
      proof (cases "x = s")
        case True
        with key \<open>?k \<in> fst ` set groups\<close> show ?thesis unfolding keys by blast
      next
        case False
        with that have "x \<in> set seen" by simp
        from d(5) [OF this that(2)] show ?thesis unfolding keys .
      qed
      show "sessions g = filter (\<lambda>s. duration s \<noteq> None
                                  \<and> periodKey totalPeriod z (start_time s) = Inr k) (seen @ [s])
            \<and> totalMinutes g = sum_list (map minutesOf (sessions g))
            \<and> (\<exists>b. start g = Some b \<and> isoDate b = k \<and> - maxTime \<le> b \<and> b \<le> maxTime)"
        if kg: "(k, g) \<in> set (modify ?k ?F groups)" for k g
      proof -
        from kg consider "k \<noteq> ?k" "(k, g) \<in> set groups"
          | g0 where "k = ?k" "(?k, g0) \<in> set groups" "g = ?F g0"
          unfolding set_modify by blast
        then show ?thesis
        proof cases
          case 1
          with d(2,3,4) [OF 1(2)] key show ?thesis by simp
        next
          case 2
          with d(2,3,4) [OF 2(2)] key Some show ?thesis by simp
        qed
      qed
    qed
    with visit_old_group [OF Some b(1) True, of tot] ret show ?thesis by simp
  qed
qed

lemma forEach_inv:
  assumes "groups_inv totalPeriod z seen acc"
    and "forEach totalPeriod z ss acc = Inr acc'"
  shows "groups_inv totalPeriod z (seen @ ss) acc'"
  using assms
proof (induction ss arbitrary: seen acc)
  case Nil
  then show ?case by simp
next
  case (Cons s ss)
  obtain groups tot where acc: "acc = (groups, tot)" by (cases acc)
  from Cons.prems(2) obtain acc1 where v: "visit totalPeriod z s acc = Inr acc1"
    and f: "forEach totalPeriod z ss acc1 = Inr acc'"
    by (auto split: sum.splits)
  have "groups_inv totalPeriod z (seen @ [s]) acc1"
    using visit_inv [OF Cons.prems(1) [unfolded acc] v [unfolded acc]] .
  from Cons.IH [OF this f] show ?case by simp
qed

lemma forEach_returns:
  assumes sp: "offsetSpread z B"
  shows "(\<forall>s \<in> set ss. duration s \<noteq> None \<longrightarrow>
           (\<exists>t. start_time s = Some t \<and> - maxTime + 31 * msPerDay + 2 * B \<le> t \<and> t + 2 * B \<le> maxTime))
         \<Longrightarrow> \<exists>acc'. forEach totalPeriod z ss acc = Inr acc'"
proof (induction ss arbitrary: acc)
  case Nil
  then show ?case by simp
next
  case (Cons s ss)
  from Cons.prems have "duration s \<noteq> None \<longrightarrow>
      (\<exists>t. start_time s = Some t \<and> - maxTime + 31 * msPerDay + 2 * B \<le> t \<and> t + 2 * B \<le> maxTime)" by simp
  from visit_returns [OF sp this, of totalPeriod acc]
  obtain acc1 where v: "visit totalPeriod z s acc = Inr acc1" by blast
  from Cons.prems have "\<forall>s \<in> set ss. duration s \<noteq> None \<longrightarrow>
           (\<exists>t. start_time s = Some t \<and> - maxTime + 31 * msPerDay + 2 * B \<le> t \<and> t + 2 * B \<le> maxTime)" by simp
  from Cons.IH [OF this, of acc1] v show ?case by simp
qed

lemma groups_inv_init: "groups_inv totalPeriod z [] ([], 0)"
  by (simp add: groups_inv_def)

lemma set_insertBy: "set (insertBy cmp x xs) = insert x (set xs)"
  by (induction xs) auto

lemma set_sortBy: "set (sortBy cmp xs) = set xs"
  by (induction xs) (simp_all add: sortBy_def set_insertBy)

lemma sorted_insertBy:
  fixes f :: "'a \<Rightarrow> int"
  assumes "\<And>b. b \<in> set xs \<Longrightarrow> (cmp x b \<le> 0) = (f b \<le> f x)"
    and "sorted_wrt (\<lambda>a b. f b \<le> f a) xs"
  shows "sorted_wrt (\<lambda>a b. f b \<le> f a) (insertBy cmp x xs)"
  using assms
proof (induction xs)
  case Nil
  then show ?case by simp
next
  case (Cons y ys)
  show ?case
  proof (cases "cmp x y \<le> 0")
    case True
    then have "f y \<le> f x" using Cons.prems(1) [of y] by simp
    with Cons.prems(2) True show ?thesis by fastforce
  next
    case False
    then have "f x < f y" using Cons.prems(1) [of y] by simp
    moreover have "sorted_wrt (\<lambda>a b. f b \<le> f a) (insertBy cmp x ys)"
      using Cons.prems by (intro Cons.IH) simp_all
    ultimately show ?thesis using False Cons.prems(2) by (auto simp: set_insertBy)
  qed
qed

lemma sorted_sortBy:
  fixes f :: "'a \<Rightarrow> int"
  assumes "\<And>a b. a \<in> set xs \<Longrightarrow> b \<in> set xs \<Longrightarrow> (cmp a b \<le> 0) = (f b \<le> f a)"
  shows "sorted_wrt (\<lambda>a b. f b \<le> f a) (sortBy cmp xs)"
  using assms
proof (induction xs)
  case Nil
  then show ?case by (simp add: sortBy_def)
next
  case (Cons x xs)
  have "sorted_wrt (\<lambda>a b. f b \<le> f a) (sortBy cmp xs)" using Cons.prems by (intro Cons.IH) simp_all
  then have "sorted_wrt (\<lambda>a b. f b \<le> f a) (insertBy cmp x (sortBy cmp xs))"
    using Cons.prems by (intro sorted_insertBy) (simp_all add: set_sortBy)
  then show ?case by (simp add: sortBy_def)
qed

lemma sorted_wrt_strict:
  fixes f :: "'a \<Rightarrow> int"
  assumes "sorted_wrt (\<lambda>a b. f b \<le> f a) xs"
    and "\<And>a b. a \<in> set xs \<Longrightarrow> b \<in> set xs \<Longrightarrow> f a = f b \<Longrightarrow> a = b"
    and "distinct xs"
  shows "sorted_wrt (\<lambda>a b. f b < f a) xs"
  using assms
proof (induction xs)
  case Nil
  then show ?case by simp
next
  case (Cons x xs)
  have "f b < f x" if "b \<in> set xs" for b
  proof -
    have "f b \<le> f x" using Cons.prems(1) that by simp
    moreover have "f b \<noteq> f x" using Cons.prems(2) [of b x] Cons.prems(3) that by auto
    ultimately show ?thesis by simp
  qed
  moreover have "sorted_wrt (\<lambda>a b. f b < f a) xs" using Cons.prems by (intro Cons.IH) simp_all
  ultimately show ?case by simp
qed

lemma distinct_insertBy: "distinct (insertBy cmp x xs) = (x \<notin> set xs \<and> distinct xs)"
  by (induction xs) (auto simp: set_insertBy)

lemma distinct_sortBy: "distinct (sortBy cmp xs) = distinct xs"
  by (induction xs) (simp_all add: sortBy_def distinct_insertBy set_sortBy [unfolded sortBy_def])

lemma set_map_filter: "set (List.map_filter f xs) = {y. \<exists>x \<in> set xs. f x = Some y}"
  by (induction xs) (auto simp: map_filter_simps split: option.splits)

lemma sorted_wrt_map_filter:
  assumes "sorted_wrt (\<lambda>a b. \<forall>x y. f a = Some x \<longrightarrow> f b = Some y \<longrightarrow> R x y) xs"
  shows "sorted_wrt R (List.map_filter f xs)"
  using assms
  by (induction xs) (auto simp: map_filter_simps set_map_filter split: option.splits)

lemma isoDate_cong: "Day a = Day b \<Longrightarrow> isoDate a = isoDate b"
  using calendar_cong [of a b] by (simp add: isoDate_def)

lemma Day_mono: "a \<le> b \<Longrightarrow> Day a \<le> Day b"
  unfolding Day_def by (rule zdiv_mono1) (simp_all add: msPerDay_def)

lemma groupedSessions_returns:
  assumes sp: "offsetSpread z B" and r: "\<forall>s \<in> set ss. duration s \<noteq> None \<longrightarrow>
           (\<exists>t. start_time s = Some t \<and> - maxTime + 31 * msPerDay + 2 * B \<le> t \<and> t + 2 * B \<le> maxTime)"
  shows "\<exists>r. groupedSessions totalPeriod z ss = Inr r"
proof -
  from forEach_returns [OF sp r, of totalPeriod "([], 0)"]
  obtain acc where "forEach totalPeriod z ss ([], 0) = Inr acc" by blast
  then show ?thesis by (cases acc) (simp add: groupedSessions_def Let_def)
qed

lemma groupedSessions_result:
  assumes "ss \<noteq> []" and "groupedSessions totalPeriod z ss = Inr r"
  shows "\<exists>groups tot. groups_inv totalPeriod z ss (groups, tot)
           \<and> r = Grouped (List.map_filter (map_of groups)
                            (sortBy compareKeys (map fst groups))) tot"
proof (cases "forEach totalPeriod z ss ([], 0)")
  case (Inl e)
  with assms show ?thesis by (simp add: groupedSessions_def)
next
  case (Inr acc)
  obtain groups tot where acc: "acc = (groups, tot)" by (cases acc)
  from forEach_inv [OF groups_inv_init Inr]
  have "groups_inv totalPeriod z ss (groups, tot)" unfolding acc by simp
  moreover have "r = Grouped (List.map_filter (map_of groups)
                            (sortBy compareKeys (map fst groups))) tot"
    using assms Inr by (simp add: groupedSessions_def acc Let_def)
  ultimately show ?thesis by blast
qed

lemma sortedGroups_member:
  assumes "g \<in> set (List.map_filter (map_of groups) ks)"
  shows "\<exists>k. (k, g) \<in> set groups"
  using assms by (auto simp: set_map_filter dest: map_of_SomeD)

lemma keys_sorted:
  assumes inv: "groups_inv totalPeriod z seen (groups, tot)"
  shows "sorted_wrt (\<lambda>a b. \<forall>g h. map_of groups a = Some g \<longrightarrow> map_of groups b = Some h \<longrightarrow>
            (\<exists>x y. start g = Some x \<and> start h = Some y \<and> Day y < Day x \<and> y < x))
          (sortBy compareKeys (map fst groups))"
proof -
  note d = groups_invD [OF inv]
  let ?ks = "map fst groups"
  have key: "\<exists>g x. (k, g) \<in> set groups \<and> start g = Some x \<and> isoDate x = k
                  \<and> Date_parse k = Some (Day x * msPerDay)"
    if "k \<in> set ?ks" for k
  proof -
    from that obtain g where g: "(k, g) \<in> set groups" by auto
    from d(4) [OF g] obtain x where x: "start g = Some x" "isoDate x = k"
      "- maxTime \<le> x" "x \<le> maxTime" by blast
    from Date_parse_isoDate [OF x(3,4)] x(2) have "Date_parse k = Some (Day x * msPerDay)" by simp
    with g x show ?thesis by blast
  qed
  have cmp: "(compareKeys a b \<le> 0) = (keyTime b \<le> keyTime a)"
    if "a \<in> set ?ks" "b \<in> set ?ks" for a b
    using key [OF that(1)] key [OF that(2)]
    by (auto simp: compareKeys_def keyTime_def minus_num_def)
  have inj: "a = b" if "a \<in> set ?ks" "b \<in> set ?ks" "keyTime a = keyTime b" for a b
  proof -
    from key [OF that(1)] obtain x where x: "isoDate x = a" "Date_parse a = Some (Day x * msPerDay)"
      by blast
    from key [OF that(2)] obtain y where y: "isoDate y = b" "Date_parse b = Some (Day y * msPerDay)"
      by blast
    from that(3) x(2) y(2) have "Day x = Day y" by (simp add: keyTime_def msPerDay_def)
    from isoDate_cong [OF this] x(1) y(1) show ?thesis by simp
  qed
  have "sorted_wrt (\<lambda>a b. keyTime b \<le> keyTime a) (sortBy compareKeys ?ks)"
    by (rule sorted_sortBy) (rule cmp)
  then have strict: "sorted_wrt (\<lambda>a b. keyTime b < keyTime a) (sortBy compareKeys ?ks)"
    using d(1) inj by (intro sorted_wrt_strict) (simp_all add: set_sortBy distinct_sortBy)
  show ?thesis
  proof (rule sorted_wrt_mono_rel [OF _ strict], intro allI impI)
    fix a b g h
    assume ab: "a \<in> set (sortBy compareKeys ?ks)" "b \<in> set (sortBy compareKeys ?ks)"
      and lt: "keyTime b < keyTime a"
      and ga: "map_of groups a = Some g" and hb: "map_of groups b = Some h"
    from d(4) [OF map_of_SomeD [OF ga]] obtain x where x: "start g = Some x" "isoDate x = a"
      "- maxTime \<le> x" "x \<le> maxTime" by blast
    from d(4) [OF map_of_SomeD [OF hb]] obtain y where y: "start h = Some y" "isoDate y = b"
      "- maxTime \<le> y" "y \<le> maxTime" by blast
    have "keyTime a = Day x * msPerDay" "keyTime b = Day y * msPerDay"
      using Date_parse_isoDate [OF x(3,4)] Date_parse_isoDate [OF y(3,4)] x(2) y(2)
      by (simp_all add: keyTime_def)
    with lt have days: "Day y < Day x" by (simp add: msPerDay_def)
    then have "y < x" using Day_mono [of x y] by (cases "x \<le> y") simp_all
    with x(1) y(1) days show "\<exists>x y. start g = Some x \<and> start h = Some y \<and> Day y < Day x \<and> y < x"
      by blast
  qed
qed

text \<open>No group is empty: a group is created with the session that opens it.\<close>

lemma visit_nonempty:
  assumes ne: "\<forall>(k, g) \<in> set (fst acc). sessions g \<noteq> []"
    and v: "visit totalPeriod z s acc = Inr acc'"
  shows "\<forall>(k, g) \<in> set (fst acc'). sessions g \<noteq> []"
proof (cases "duration s")
  case None
  with v have "acc' = acc" by (simp add: visit_open)
  with ne show ?thesis by simp
next
  case (Some dur)
  obtain groups tot where acc: "acc = (groups, tot)" by (cases acc)
  from visit_Inr_start [OF Some v] obtain b
    where b: "getPeriodStart totalPeriod z (start_time s) = Some b" by blast
  show ?thesis
  proof (cases "isoDate b \<in> fst ` set groups")
    case True
    from visit_old_group [OF Some b True, of tot] v
    have "fst acc' = modify (isoDate b)
            (\<lambda>g. g\<lparr>sessions := sessions g @ [s], totalMinutes := totalMinutes g + dur\<rparr>) groups"
      by (auto simp: acc)
    with ne show ?thesis by (auto simp: acc set_modify)
  next
    case False
    from visit_new_group [OF Some b False, of tot] v
    have "fst acc' = groups @ [(isoDate b, \<lparr>start = Some b, sessions = [s], totalMinutes = dur\<rparr>)]"
      by (auto simp: acc)
    with ne show ?thesis by (auto simp: acc)
  qed
qed

lemma forEach_nonempty:
  assumes "\<forall>(k, g) \<in> set (fst acc). sessions g \<noteq> []"
    and "forEach totalPeriod z ss acc = Inr acc'"
  shows "\<forall>(k, g) \<in> set (fst acc'). sessions g \<noteq> []"
  using assms
proof (induction ss arbitrary: acc)
  case Nil
  then show ?case by simp
next
  case (Cons s ss)
  from Cons.prems(2) obtain acc1 where v: "visit totalPeriod z s acc = Inr acc1"
    and f: "forEach totalPeriod z ss acc1 = Inr acc'"
    by (auto split: sum.splits)
  from Cons.IH [OF visit_nonempty [OF Cons.prems(1) v] f] show ?case .
qed

lemma sortedGroups_complete:
  assumes "distinct (map fst groups)" and "(k, g) \<in> set groups"
  shows "g \<in> set (List.map_filter (map_of groups) (sortBy compareKeys (map fst groups)))"
proof -
  have "map_of groups k = Some g" using assms by (rule map_of_is_SomeI)
  moreover have "k \<in> set (sortBy compareKeys (map fst groups))"
    using assms(2) by (force simp: set_sortBy)
  ultimately show ?thesis unfolding set_map_filter by blast
qed

text \<open>
  The groups returned for a non-empty list: in strictly descending order of start; each
  one non-empty and holding, in input order, the completed sessions whose key is the
  ISO date of its start; every completed session in one of them.
\<close>

lemma groupedSessions_groups:
  assumes ne: "ss \<noteq> []" and ret: "groupedSessions totalPeriod z ss = Inr r"
  shows "\<exists>gs tot. r = Grouped gs tot
     \<and> sorted_wrt (\<lambda>g h. \<exists>x y. start g = Some x \<and> start h = Some y \<and> Day y < Day x \<and> y < x) gs
     \<and> (\<forall>g \<in> set gs. \<exists>b. start g = Some b \<and> sessions g \<noteq> []
            \<and> sessions g = filter (\<lambda>s. duration s \<noteq> None
                  \<and> periodKey totalPeriod z (start_time s) = Inr (isoDate b)) ss)
     \<and> (\<forall>s \<in> set ss. duration s \<noteq> None \<longrightarrow> (\<exists>g \<in> set gs. s \<in> set (sessions g)))"
proof (cases "forEach totalPeriod z ss ([], 0)")
  case (Inl e)
  with ne ret show ?thesis by (simp add: groupedSessions_def)
next
  case (Inr acc)
  obtain groups tot where acc: "acc = (groups, tot)" by (cases acc)
  let ?gs = "List.map_filter (map_of groups) (sortBy compareKeys (map fst groups))"
  from forEach_inv [OF groups_inv_init Inr]
  have i: "groups_inv totalPeriod z ss (groups, tot)" unfolding acc by simp
  note d = groups_invD [OF i]
  have "\<forall>(k, g) \<in> set (fst acc). sessions g \<noteq> []"
    by (rule forEach_nonempty [OF _ Inr]) simp
  then have full: "sessions g \<noteq> []" if "(k, g) \<in> set groups" for k g
    using that by (auto simp: acc)
  have r: "r = Grouped ?gs tot"
    using ne ret Inr by (simp add: groupedSessions_def acc Let_def)
  have s: "sorted_wrt (\<lambda>g h. \<exists>x y. start g = Some x \<and> start h = Some y \<and> Day y < Day x \<and> y < x) ?gs"
    by (rule sorted_wrt_map_filter) (rule keys_sorted [OF i])
  have each: "\<exists>b. start g = Some b \<and> sessions g \<noteq> []
            \<and> sessions g = filter (\<lambda>s. duration s \<noteq> None
                  \<and> periodKey totalPeriod z (start_time s) = Inr (isoDate b)) ss"
    if "g \<in> set ?gs" for g
  proof -
    from sortedGroups_member [OF that] obtain k where kg: "(k, g) \<in> set groups" by blast
    from d(4) [OF kg] obtain b where b: "start g = Some b" "isoDate b = k" by blast
    from d(2) [OF kg] full [OF kg] b show ?thesis by simp
  qed
  have cover: "\<exists>g \<in> set ?gs. s \<in> set (sessions g)"
    if s: "s \<in> set ss" "duration s \<noteq> None" for s
  proof -
    from d(5) [OF s] obtain k g where kg: "(k, g) \<in> set groups"
      and k: "periodKey totalPeriod z (start_time s) = Inr k" by auto
    have "s \<in> set (sessions g)" unfolding d(2) [OF kg] using s k by simp
    with sortedGroups_complete [OF d(1) kg] show ?thesis by blast
  qed
  from r s each cover show ?thesis by blast
qed

text \<open>
  Claim C2. For every list of sessions of the data model (a duration exactly when an
  end time) and every grouping mode, the grand total the aggregation returns is the sum
  of the durations of exactly the sessions with an end time, and every group's total is
  the sum of the durations of its sessions, all of which have an end time: an open
  session adds nothing to either. The aggregation returns whenever the completed
  sessions have start times at least 31 days plus twice the spread of the time zone's
  offsets after the earliest time value, and at least twice the spread before the
  latest (31 days and the latest time value, in a zone with one offset).
\<close>

theorem groupedSessions_total:
  assumes "\<forall>s \<in> set ss. (duration s = None) = (end_time s = None)"
  shows "(\<forall>r. groupedSessions totalPeriod z ss = Inr r \<longrightarrow>
            totalMinutesAcrossAllPeriods r
               = sum_list (map minutesOf (filter (\<lambda>s. end_time s \<noteq> None) ss))
            \<and> (\<forall>g \<in> set (renderedGroups r).
                 totalMinutes g = sum_list (map minutesOf (sessions g))
                 \<and> (\<forall>s \<in> set (sessions g). s \<in> set ss \<and> end_time s \<noteq> None)))
       \<and> (\<forall>B. offsetSpread z B \<and> (\<forall>s \<in> set ss. duration s \<noteq> None \<longrightarrow>
              (\<exists>t. start_time s = Some t
                   \<and> - maxTime + 31 * msPerDay + 2 * B \<le> t \<and> t + 2 * B \<le> maxTime))
           \<longrightarrow> (\<exists>r. groupedSessions totalPeriod z ss = Inr r))"
proof (rule conjI; intro allI impI)
  fix r
  assume ret: "groupedSessions totalPeriod z ss = Inr r"
  show "totalMinutesAcrossAllPeriods r
               = sum_list (map minutesOf (filter (\<lambda>s. end_time s \<noteq> None) ss))
            \<and> (\<forall>g \<in> set (renderedGroups r).
                 totalMinutes g = sum_list (map minutesOf (sessions g))
                 \<and> (\<forall>s \<in> set (sessions g). s \<in> set ss \<and> end_time s \<noteq> None))"
  proof (cases "ss = []")
    case True
    with ret have "r = EmptyObject" by (simp add: groupedSessions_def)
    with True show ?thesis
      by (simp add: renderedGroups_def sortedGroups_def
          totalMinutesAcrossAllPeriods_def totalDurationMinutes_def)
  next
    case False
    from groupedSessions_result [OF False ret]
    obtain groups tot where i: "groups_inv totalPeriod z ss (groups, tot)"
      and r: "r = Grouped (List.map_filter (map_of groups)
                             (sortBy compareKeys (map fst groups))) tot" by blast
    let ?gs = "List.map_filter (map_of groups) (sortBy compareKeys (map fst groups))"
    note d = groups_invD [OF i]
    have same: "filter (\<lambda>s. duration s \<noteq> None) ss = filter (\<lambda>s. end_time s \<noteq> None) ss"
      using assms by (intro filter_cong) auto
    have tot: "totalMinutesAcrossAllPeriods (Grouped ?gs tot)
             = sum_list (map minutesOf (filter (\<lambda>s. end_time s \<noteq> None) ss))"
      using d(6) same by (simp add: totalMinutesAcrossAllPeriods_def totalDurationMinutes_def)
    have grp: "totalMinutes g = sum_list (map minutesOf (sessions g))
             \<and> (\<forall>s \<in> set (sessions g). s \<in> set ss \<and> end_time s \<noteq> None)"
      if "g \<in> set ?gs" for g
    proof -
      from sortedGroups_member [OF that] obtain k where kg: "(k, g) \<in> set groups" by blast
      from d(2) [OF kg] assms have "\<forall>s \<in> set (sessions g). s \<in> set ss \<and> end_time s \<noteq> None"
        by auto
      with d(3) [OF kg] show ?thesis by simp
    qed
    have "renderedGroups (Grouped ?gs tot) = ?gs"
      by (simp add: renderedGroups_def sortedGroups_def)
    with r tot grp show ?thesis by simp
  qed
next
  fix B
  assume "offsetSpread z B \<and> (\<forall>s \<in> set ss. duration s \<noteq> None \<longrightarrow>
              (\<exists>t. start_time s = Some t
                   \<and> - maxTime + 31 * msPerDay + 2 * B \<le> t \<and> t + 2 * B \<le> maxTime))"
  then show "\<exists>r. groupedSessions totalPeriod z ss = Inr r"
    by (intro groupedSessions_returns [of z B]) simp_all
qed

theorem groupedSessions_total_witness:
  "\<exists>r. groupedSessions ''weekly'' losAngeles2024
      [\<lparr>doc_id = ''c'', start_time = Some 1730590000000, end_time = None,
         duration = None, jobName = utf16 ''x''\<rparr>,
       \<lparr>doc_id = ''a'', start_time = Some 1730580000123, end_time = Some 1730585400123,
         duration = Some 90, jobName = utf16 ''x''\<rparr>,
       \<lparr>doc_id = ''b'', start_time = Some 1730320800123, end_time = Some 1730323500123,
         duration = Some 45, jobName = utf16 ''x''\<rparr>] = Inr r
     \<and> totalMinutesAcrossAllPeriods r = 135
     \<and> map totalMinutes (renderedGroups r) = [135]
     \<and> list_all (\<lambda>g. totalMinutes g = sum_list (map minutesOf (sessions g))
                     \<and> list_all (\<lambda>s. end_time s \<noteq> None) (sessions g)) (renderedGroups r)"
proof -
  let ?ss = "[\<lparr>doc_id = ''c'', start_time = Some 1730590000000, end_time = None,
         duration = None, jobName = utf16 ''x''\<rparr>,
       \<lparr>doc_id = ''a'', start_time = Some 1730580000123, end_time = Some 1730585400123,
         duration = Some 90, jobName = utf16 ''x''\<rparr>,
       \<lparr>doc_id = ''b'', start_time = Some 1730320800123, end_time = Some 1730323500123,
         duration = Some 45, jobName = utf16 ''x''\<rparr>]"
  have a: "\<forall>s \<in> set ?ss. (duration s = None) = (end_time s = None)" by simp
  have b: "offsetSpread losAngeles2024 3600000 \<and> (\<forall>s \<in> set ?ss. duration s \<noteq> None \<longrightarrow>
           (\<exists>t. start_time s = Some t
                \<and> - maxTime + 31 * msPerDay + 2 * 3600000 \<le> t \<and> t + 2 * 3600000 \<le> maxTime))"
    by (simp add: offsetSpread_losAngeles2024 maxTime_def msPerDay_def)
  have m: "map totalMinutes (renderedGroups r) = [135]"
    if "groupedSessions ''weekly'' losAngeles2024 ?ss = Inr r" for r
  proof -
    have "map totalMinutes (renderedGroups
            (case groupedSessions ''weekly'' losAngeles2024 ?ss of Inr r \<Rightarrow> r)) = [135]"
      by code_simp
    with that show ?thesis by simp
  qed
  note t = groupedSessions_total [OF a, of "''weekly''" losAngeles2024]
  from t b obtain r where r: "groupedSessions ''weekly'' losAngeles2024 ?ss = Inr r" by blast
  with t have "totalMinutesAcrossAllPeriods r
               = sum_list (map minutesOf (filter (\<lambda>s. end_time s \<noteq> None) ?ss))"
    and "\<forall>g \<in> set (renderedGroups r).
                 totalMinutes g = sum_list (map minutesOf (sessions g))
                 \<and> (\<forall>s \<in> set (sessions g). s \<in> set ?ss \<and> end_time s \<noteq> None)" by blast+
  with r m [OF r] show ?thesis unfolding list_all_iff by auto
qed

text \<open>
  Claim C9. For every non-empty session list the groups the aggregation returns are in
  strictly descending order of period start: each group starts on a later calendar day,
  and at a later time, than every group after it. These are the groups of the list:
  every completed session of the list is in one of them, and each of them is not
  empty and holds sessions of the list whose key is the ISO date of the group's start.
  (The aggregation returns under the condition given for claim C2.)
\<close>

theorem groupedSessions_sorted_desc:
  assumes "ss \<noteq> []"
  shows "(\<forall>r. groupedSessions totalPeriod z ss = Inr r \<longrightarrow>
            (\<exists>gs tot. r = Grouped gs tot
               \<and> sorted_wrt (\<lambda>g h. \<exists>x y. start g = Some x \<and> start h = Some y
                                          \<and> Day y < Day x \<and> y < x) gs
               \<and> (\<forall>g \<in> set gs. \<exists>b. start g = Some b \<and> sessions g \<noteq> []
                     \<and> (\<forall>s \<in> set (sessions g). s \<in> set ss
                           \<and> periodKey totalPeriod z (start_time s) = Inr (isoDate b)))
               \<and> (\<forall>s \<in> set ss. duration s \<noteq> None \<longrightarrow>
                     (\<exists>g \<in> set gs. s \<in> set (sessions g)))))
   \<and> (\<forall>B. offsetSpread z B \<and> (\<forall>s \<in> set ss. duration s \<noteq> None \<longrightarrow>
          (\<exists>t. start_time s = Some t
               \<and> - maxTime + 31 * msPerDay + 2 * B \<le> t \<and> t + 2 * B \<le> maxTime))
       \<longrightarrow> (\<exists>r. groupedSessions totalPeriod z ss = Inr r))"
proof (rule conjI; intro allI impI)
  fix r
  assume "groupedSessions totalPeriod z ss = Inr r"
  from groupedSessions_groups [OF assms this] obtain gs tot where r: "r = Grouped gs tot"
    and s: "sorted_wrt (\<lambda>g h. \<exists>x y. start g = Some x \<and> start h = Some y
                                   \<and> Day y < Day x \<and> y < x) gs"
    and e: "\<forall>g \<in> set gs. \<exists>b. start g = Some b \<and> sessions g \<noteq> []
            \<and> sessions g = filter (\<lambda>s. duration s \<noteq> None
                  \<and> periodKey totalPeriod z (start_time s) = Inr (isoDate b)) ss"
    and c: "\<forall>s \<in> set ss. duration s \<noteq> None \<longrightarrow> (\<exists>g \<in> set gs. s \<in> set (sessions g))"
    by blast
  have "\<exists>b. start g = Some b \<and> sessions g \<noteq> []
             \<and> (\<forall>s \<in> set (sessions g). s \<in> set ss
                   \<and> periodKey totalPeriod z (start_time s) = Inr (isoDate b))"
    if "g \<in> set gs" for g
  proof -
    from e that obtain b where b: "start g = Some b" "sessions g \<noteq> []"
      "sessions g = filter (\<lambda>s. duration s \<noteq> None
                  \<and> periodKey totalPeriod z (start_time s) = Inr (isoDate b)) ss" by blast
    have "\<forall>s \<in> set (sessions g). s \<in> set ss
             \<and> periodKey totalPeriod z (start_time s) = Inr (isoDate b)"
      by (subst b(3)) simp
    with b(1,2) show ?thesis by blast
  qed
  with r s c show "\<exists>gs tot. r = Grouped gs tot
               \<and> sorted_wrt (\<lambda>g h. \<exists>x y. start g = Some x \<and> start h = Some y
                                          \<and> Day y < Day x \<and> y < x) gs
               \<and> (\<forall>g \<in> set gs. \<exists>b. start g = Some b \<and> sessions g \<noteq> []
                     \<and> (\<forall>s \<in> set (sessions g). s \<in> set ss
                           \<and> periodKey totalPeriod z (start_time s) = Inr (isoDate b)))
               \<and> (\<forall>s \<in> set ss. duration s \<noteq> None \<longrightarrow>
                     (\<exists>g \<in> set gs. s \<in> set (sessions g)))" by blast
next
  fix B
  assume "offsetSpread z B \<and> (\<forall>s \<in> set ss. duration s \<noteq> None \<longrightarrow>
          (\<exists>t. start_time s = Some t
               \<and> - maxTime + 31 * msPerDay + 2 * B \<le> t \<and> t + 2 * B \<le> maxTime))"
  then show "\<exists>r. groupedSessions totalPeriod z ss = Inr r"
    by (intro groupedSessions_returns [of z B]) simp_all
qed

theorem groupedSessions_sorted_desc_witness:
  "\<exists>gs tot. groupedSessions ''weekly'' losAngeles2024
      [\<lparr>doc_id = ''d'', start_time = Some 1729900000000, end_time = Some 1729901800000,
         duration = Some 30, jobName = utf16 ''x''\<rparr>,
       \<lparr>doc_id = ''a'', start_time = Some 1730580000123, end_time = Some 1730585400123,
         duration = Some 90, jobName = utf16 ''x''\<rparr>] = Inr (Grouped gs tot)
     \<and> map start gs = [Some 1730012400000, Some 1729407600000]
     \<and> map (map doc_id \<circ> sessions) gs = [[''a''], [''d'']]
     \<and> sorted_wrt (\<lambda>g h. \<exists>x y. start g = Some x \<and> start h = Some y
                                      \<and> Day y < Day x \<and> y < x) gs
     \<and> list_all (\<lambda>g. sessions g \<noteq> []) gs"
proof -
  let ?ss = "[\<lparr>doc_id = ''d'', start_time = Some 1729900000000, end_time = Some 1729901800000,
         duration = Some 30, jobName = utf16 ''x''\<rparr>,
       \<lparr>doc_id = ''a'', start_time = Some 1730580000123, end_time = Some 1730585400123,
         duration = Some 90, jobName = utf16 ''x''\<rparr>]"
  have ne: "?ss \<noteq> []" by simp
  let ?G = "[\<lparr>start = Some 1730012400000,
                  sessions = [\<lparr>doc_id = ''a'', start_time = Some 1730580000123,
                               end_time = Some 1730585400123, duration = Some 90,
                               jobName = utf16 ''x''\<rparr>],
                  totalMinutes = 90\<rparr>,
                \<lparr>start = Some 1729407600000,
                  sessions = [\<lparr>doc_id = ''d'', start_time = Some 1729900000000,
                               end_time = Some 1729901800000, duration = Some 30,
                               jobName = utf16 ''x''\<rparr>],
                  totalMinutes = 30\<rparr>]"
  have e: "groupedSessions ''weekly'' losAngeles2024 ?ss = Inr (Grouped ?G 120)"
    by code_simp
  note t = groupedSessions_sorted_desc [OF ne, of "''weekly''" losAngeles2024,
      THEN conjunct1, rule_format, OF e]
  from t obtain gs tot where r: "Grouped ?G 120 = Grouped gs tot"
    and s: "sorted_wrt (\<lambda>g h. \<exists>x y. start g = Some x \<and> start h = Some y
                                      \<and> Day y < Day x \<and> y < x) gs"
    and n: "\<forall>g \<in> set gs. \<exists>b. start g = Some b \<and> sessions g \<noteq> []
                     \<and> (\<forall>s \<in> set (sessions g). s \<in> set ?ss
                           \<and> periodKey ''weekly'' losAngeles2024 (start_time s) = Inr (isoDate b))"
    by blast
  from r have gs: "gs = ?G" and tot: "tot = 120" by simp_all
  have g: "groupedSessions ''weekly'' losAngeles2024 ?ss = Inr (Grouped gs tot)"
    unfolding gs tot by (rule e)
  have m: "map start gs = [Some 1730012400000, Some 1729407600000]"
    "map (map doc_id \<circ> sessions) gs = [[''a''], [''d'']]" unfolding gs by simp_all
  from n have l: "list_all (\<lambda>g. sessions g \<noteq> []) gs" unfolding list_all_iff by blast
  show ?thesis
    by (rule exI [of _ gs], rule exI [of _ tot]) (intro conjI g m s l)
qed

text \<open>The list the listener delivers is sorted by start time, latest first.\<close>

lemma orderBy_start_time_desc_sorted:
  "sorted_wrt (\<lambda>a b. \<exists>x y. start_time a = Some x \<and> start_time b = Some y \<and> y \<le> x)
     (orderBy_start_time_desc docs)"
proof -
  let ?f = "\<lambda>s. - (case start_time s of None \<Rightarrow> 0 | Some t \<Rightarrow> t)"
  let ?xs = "filter (\<lambda>s. start_time s \<noteq> None) docs"
  have "sorted (map ?f (sort_key ?f ?xs))" by (rule sorted_sort_key)
  then have "sorted_wrt (\<lambda>a b. ?f a \<le> ?f b) (sort_key ?f ?xs)"
    by (simp add: sorted_map)
  moreover have "\<forall>s \<in> set (sort_key ?f ?xs). start_time s \<noteq> None" by simp
  ultimately have "sorted_wrt (\<lambda>a b. \<exists>x y. start_time a = Some x \<and> start_time b = Some y \<and> y \<le> x)
      (sort_key ?f ?xs)"
  proof (elim sorted_wrt_mono_rel [rotated])
    fix a b
    assume "a \<in> set (sort_key ?f ?xs)" "b \<in> set (sort_key ?f ?xs)" "?f a \<le> ?f b"
    then show "\<exists>x y. start_time a = Some x \<and> start_time b = Some y \<and> y \<le> x"
      by (cases "start_time a"; cases "start_time b") simp_all
  qed
  then show ?thesis by (simp add: orderBy_start_time_desc_def)
qed

text \<open>
  Claim C10. Each group the aggregation returns holds exactly the completed sessions
  whose key is the ISO date of the group's start, in the order they have in the input
  list, so it is a subsequence of the input, and any order the input list is sorted by
  (the store delivers it latest start first) is the order of each group. Every completed
  session of the input is in one of the groups.
\<close>

theorem groupedSessions_order_preserving:
  "(\<forall>r. groupedSessions totalPeriod z ss = Inr r \<longrightarrow>
      (\<forall>g \<in> set (renderedGroups r).
          (\<exists>b. start g = Some b
              \<and> sessions g = filter (\<lambda>s. duration s \<noteq> None
                   \<and> periodKey totalPeriod z (start_time s) = Inr (isoDate b)) ss)
          \<and> subseq (sessions g) ss
          \<and> (sorted_wrt R ss \<longrightarrow> sorted_wrt R (sessions g)))
      \<and> (\<forall>s \<in> set ss. duration s \<noteq> None \<longrightarrow>
            (\<exists>g \<in> set (renderedGroups r). s \<in> set (sessions g))))
   \<and> (\<forall>B. offsetSpread z B \<and> (\<forall>s \<in> set ss. duration s \<noteq> None \<longrightarrow>
          (\<exists>t. start_time s = Some t
               \<and> - maxTime + 31 * msPerDay + 2 * B \<le> t \<and> t + 2 * B \<le> maxTime))
       \<longrightarrow> (\<exists>r. groupedSessions totalPeriod z ss = Inr r))"
proof (rule conjI; intro allI impI)
  fix r
  assume ret: "groupedSessions totalPeriod z ss = Inr r"
  show "(\<forall>g \<in> set (renderedGroups r).
          (\<exists>b. start g = Some b
              \<and> sessions g = filter (\<lambda>s. duration s \<noteq> None
                   \<and> periodKey totalPeriod z (start_time s) = Inr (isoDate b)) ss)
          \<and> subseq (sessions g) ss
          \<and> (sorted_wrt R ss \<longrightarrow> sorted_wrt R (sessions g)))
      \<and> (\<forall>s \<in> set ss. duration s \<noteq> None \<longrightarrow>
            (\<exists>g \<in> set (renderedGroups r). s \<in> set (sessions g)))"
  proof (cases "ss = []")
    case True
    with ret have "r = EmptyObject" by (simp add: groupedSessions_def)
    with True show ?thesis by (simp add: renderedGroups_def sortedGroups_def)
  next
    case False
    from groupedSessions_groups [OF False ret] obtain gs tot where r: "r = Grouped gs tot"
      and e: "\<forall>g \<in> set gs. \<exists>b. start g = Some b \<and> sessions g \<noteq> []
            \<and> sessions g = filter (\<lambda>s. duration s \<noteq> None
                  \<and> periodKey totalPeriod z (start_time s) = Inr (isoDate b)) ss"
      and c: "\<forall>s \<in> set ss. duration s \<noteq> None \<longrightarrow> (\<exists>g \<in> set gs. s \<in> set (sessions g))"
      by blast
    have rg: "renderedGroups r = gs" by (simp add: r renderedGroups_def sortedGroups_def)
    have "(\<exists>b. start g = Some b
              \<and> sessions g = filter (\<lambda>s. duration s \<noteq> None
                   \<and> periodKey totalPeriod z (start_time s) = Inr (isoDate b)) ss)
          \<and> subseq (sessions g) ss
          \<and> (sorted_wrt R ss \<longrightarrow> sorted_wrt R (sessions g))" if "g \<in> set gs" for g
    proof -
      from e that obtain b where b: "start g = Some b"
        "sessions g = filter (\<lambda>s. duration s \<noteq> None
                  \<and> periodKey totalPeriod z (start_time s) = Inr (isoDate b)) ss" by blast
      have "subseq (sessions g) ss" by (subst b(2)) simp
      moreover have "sorted_wrt R (sessions g)" if "sorted_wrt R ss"
        using that by (subst b(2)) (simp add: sorted_wrt_filter)
      ultimately show ?thesis using b by blast
    qed
    with c show ?thesis unfolding rg by blast
  qed
next
  fix B
  assume "offsetSpread z B \<and> (\<forall>s \<in> set ss. duration s \<noteq> None \<longrightarrow>
          (\<exists>t. start_time s = Some t
               \<and> - maxTime + 31 * msPerDay + 2 * B \<le> t \<and> t + 2 * B \<le> maxTime))"
  then show "\<exists>r. groupedSessions totalPeriod z ss = Inr r"
    by (intro groupedSessions_returns [of z B]) simp_all
qed

theorem groupedSessions_order_preserving_witness:
  "\<exists>r. groupedSessions ''weekly'' losAngeles2024
      [\<lparr>doc_id = ''a'', start_time = Some 1730580000123, end_time = Some 1730585400123,
         duration = Some 90, jobName = utf16 ''x''\<rparr>,
       \<lparr>doc_id = ''b'', start_time = Some 1730320800123, end_time = Some 1730323500123,
         duration = Some 45, jobName = utf16 ''x''\<rparr>,
       \<lparr>doc_id = ''d'', start_time = Some 1729900000000, end_time = Some 1729901800000,
         duration = Some 30, jobName = utf16 ''x''\<rparr>] = Inr r
     \<and> map (map doc_id \<circ> sessions) (renderedGroups r) = [[''a'', ''b''], [''d'']]
     \<and> list_all (\<lambda>g. subseq (sessions g)
          [\<lparr>doc_id = ''a'', start_time = Some 1730580000123, end_time = Some 1730585400123,
         duration = Some 90, jobName = utf16 ''x''\<rparr>,
       \<lparr>doc_id = ''b'', start_time = Some 1730320800123, end_time = Some 1730323500123,
         duration = Some 45, jobName = utf16 ''x''\<rparr>,
       \<lparr>doc_id = ''d'', start_time = Some 1729900000000, end_time = Some 1729901800000,
         duration = Some 30, jobName = utf16 ''x''\<rparr>]
          \<and> sorted_wrt (\<lambda>a b. \<exists>x y. start_time a = Some x \<and> start_time b = Some y \<and> y \<le> x)
                (sessions g)) (renderedGroups r)"
proof -
  let ?ss = "[\<lparr>doc_id = ''a'', start_time = Some 1730580000123, end_time = Some 1730585400123,
         duration = Some 90, jobName = utf16 ''x''\<rparr>,
       \<lparr>doc_id = ''b'', start_time = Some 1730320800123, end_time = Some 1730323500123,
         duration = Some 45, jobName = utf16 ''x''\<rparr>,
       \<lparr>doc_id = ''d'', start_time = Some 1729900000000, end_time = Some 1729901800000,
         duration = Some 30, jobName = utf16 ''x''\<rparr>]"
  let ?R = "\<lambda>a b. \<exists>x y. start_time a = Some x \<and> start_time b = Some y \<and> y \<le> x"
  have b: "offsetSpread losAngeles2024 3600000 \<and> (\<forall>s \<in> set ?ss. duration s \<noteq> None \<longrightarrow>
           (\<exists>t. start_time s = Some t
                \<and> - maxTime + 31 * msPerDay + 2 * 3600000 \<le> t \<and> t + 2 * 3600000 \<le> maxTime))"
    by (simp add: offsetSpread_losAngeles2024 maxTime_def msPerDay_def)
  have s: "sorted_wrt ?R ?ss" by simp
  have m: "map (map doc_id \<circ> sessions) (renderedGroups r) = [[''a'', ''b''], [''d'']]"
    if "groupedSessions ''weekly'' losAngeles2024 ?ss = Inr r" for r
  proof -
    have "map (map doc_id \<circ> sessions) (renderedGroups
            (case groupedSessions ''weekly'' losAngeles2024 ?ss of Inr r \<Rightarrow> r))
          = [[''a'', ''b''], [''d'']]"
      by code_simp
    with that show ?thesis by simp
  qed
  note t = groupedSessions_order_preserving [of "''weekly''" losAngeles2024 ?ss ?R]
  from t b obtain r where r: "groupedSessions ''weekly'' losAngeles2024 ?ss = Inr r" by blast
  with t s have "\<forall>g \<in> set (renderedGroups r). subseq (sessions g) ?ss \<and> sorted_wrt ?R (sessions g)"
    by blast
  then have l: "list_all (\<lambda>g. subseq (sessions g) ?ss \<and> sorted_wrt ?R (sessions g))
                  (renderedGroups r)"
    unfolding list_all_iff .
  show ?thesis by (rule exI [of _ r]) (intro conjI r m [OF r] l)
qed

text \<open>
  Scenario B of the specification, with an open session added, in Los Angeles: two
  completed sessions of 90 and 45 minutes in one week give one group of 135 minutes,
  starting on Sunday 27 October 2024 at local midnight, and a grand total of 135.
\<close>

lemma groupedSessions_example:
  "groupedSessions ''weekly'' losAngeles2024
     [\<lparr>doc_id = ''c'', start_time = Some 1730590000000, end_time = None,
        duration = None, jobName = utf16 ''x''\<rparr>,
      \<lparr>doc_id = ''a'', start_time = Some 1730580000123, end_time = Some 1730585400123,
        duration = Some 90, jobName = utf16 ''x''\<rparr>,
      \<lparr>doc_id = ''b'', start_time = Some 1730320800123, end_time = Some 1730323500123,
        duration = Some 45, jobName = utf16 ''x''\<rparr>]
   = Inr (Grouped
       [\<lparr>start = Some 1730012400000,
          sessions =
            [\<lparr>doc_id = ''a'', start_time = Some 1730580000123, end_time = Some 1730585400123,
               duration = Some 90, jobName = utf16 ''x''\<rparr>,
             \<lparr>doc_id = ''b'', start_time = Some 1730320800123, end_time = Some 1730323500123,
               duration = Some 45, jobName = utf16 ''x''\<rparr>],
          totalMinutes = 135\<rparr>] 135)"
  by code_simp

end
